theory Spec2Isabelle
  imports Main "HOL-Library.Sublist"
begin

section \<open>Values of the program\<close>

text \<open>
  The program is \<^verbatim>\<open>index.js\<close>: it collects the rows of a paginated "newest" listing,
  turns the age of every row into a timestamp (milliseconds since the epoch), checks that
  the timestamps never increase down the list, and builds a report.

  A JavaScript number that holds a timestamp is \<^verbatim>\<open>NaN\<close> or a double with an integral
  value, and is modelled by the integer it holds. A string is a list of characters, each
  character one code unit below 256.
\<close>

datatype number = NaN | Val int

fun isNaN :: "number \<Rightarrow> bool" where
  "isNaN NaN = True"
| "isNaN (Val _) = False"

text \<open>The comparison \<^verbatim>\<open>a < b\<close> of two numbers: false as soon as one side is \<^verbatim>\<open>NaN\<close>.\<close>

fun num_lt :: "number \<Rightarrow> number \<Rightarrow> bool" where
  "num_lt (Val a) (Val b) = (a < b)"
| "num_lt _ _ = False"

text \<open>
  Every result of \<^verbatim>\<open>Number\<close>, \<^verbatim>\<open>*\<close> and \<^verbatim>\<open>-\<close> in the time arithmetic is rounded as doubles
  round: \<open>to_double x\<close> is the double nearest to the integer \<open>x\<close>, the one with the even
  mantissa when two are equally near. An integer below \<open>2^53\<close> in magnitude is a double
  itself; from there on a double has 53 significant bits, so \<open>x\<close> is cut to its 53 leading
  bits \<open>q\<close> and rounded by what is left, \<open>r\<close>. A result that rounds to \<open>2^1024\<close> or beyond
  is \<^verbatim>\<open>Infinity\<close> in the program; the model holds it as the integer \<open>2^1024\<close> with its
  sign, which no finite double equals and which compares with every finite double as
  \<^verbatim>\<open>Infinity\<close> does. (The program multiplies by 24, 60 and 1000 only and subtracts from
  a finite reference time, so it forms neither \<^verbatim>\<open>Infinity * 0\<close> nor
  \<^verbatim>\<open>Infinity - Infinity\<close>.)
\<close>

function bit_length :: "int \<Rightarrow> nat" where
  "bit_length a = (if a \<le> 0 then 0 else Suc (bit_length (a div 2)))"
  by pat_completeness auto
termination
  by (relation "measure nat") auto

declare bit_length.simps [simp del]

definition to_double :: "int \<Rightarrow> int" where
  "to_double x =
     (let a = \<bar>x\<bar>
      in if a < 2 ^ 53 then x
         else
           (let e = bit_length a - 53;
                q = a div 2 ^ e;
                r = a mod 2 ^ e;
                half = 2 ^ (e - 1);
                q1 = (if half < r \<or> (r = half \<and> odd q) then q + 1 else q);
                m = q1 * 2 ^ e
            in sgn x * (if 2 ^ 1024 \<le> m then 2 ^ 1024 else m)))"

definition times_double :: "int \<Rightarrow> int \<Rightarrow> int" where
  "times_double a b = to_double (a * b)"

definition minus_double :: "int \<Rightarrow> int \<Rightarrow> int" where
  "minus_double a b = to_double (a - b)"

text \<open>
  The objects of the report come first, so that the field names they share with the rows
  and with the validation result (\<open>title\<close>, \<open>isSorted\<close>, \<open>problems\<close>) denote the latter when
  written without a prefix.

  An entry of \<^verbatim>\<open>sampleArticles\<close>: \<^verbatim>\<open>{ position, title, age }\<close>.
\<close>

record sample =
  position :: int
  title :: string
  age :: string

record sampleArticles =
  first5 :: "sample list"
  last3 :: "sample list"

record meta =
  startedAt :: string
  finishedAt :: string
  durationMs :: int
  durationSeconds :: string
  expectedCount :: nat
  actualCount :: nat

record validation =
  passed :: bool
  isSorted :: bool
  problemCount :: nat
  problems :: "string list"

record stats =
  oldestTimestamp :: string
  newestTimestamp :: string
  timeSpanHours :: string
  unparsableCount :: nat

text \<open>The report; \<^verbatim>\<open>statistics\<close> is an object or \<^verbatim>\<open>null\<close>.\<close>

record report =
  meta :: meta
  validation :: validation
  statistics :: "stats option"
  sampleArticles :: sampleArticles

text \<open>
  A scraped row, \<^verbatim>\<open>{ title, ageText, ageISO }\<close>; \<^verbatim>\<open>ageISO\<close> is a string or \<^verbatim>\<open>null\<close>.
\<close>

record article =
  title :: string
  ageText :: string
  ageISO :: "string option"

text \<open>
  An enriched row, as \<^verbatim>\<open>enrichArticlesWithTimestamps\<close> builds it: the row, its 1-based
  \<^verbatim>\<open>index\<close> and its \<^verbatim>\<open>timestamp\<close>.
\<close>

record detail = article +
  index :: nat
  timestamp :: number

text \<open>The result of one check, \<^verbatim>\<open>{ ok, problems }\<close>, and the result of the validator.\<close>

record check_result =
  ok :: bool
  problems :: "string list"

record validation_result =
  isSorted :: bool
  details :: "detail list"
  problems :: "string list"

text \<open>
  A thrown value: an error with its message, or the error \<^verbatim>\<open>withRetry\<close> throws, whose
  message is formed from the label, the number of attempts and the last error caught.
\<close>

datatype exn = Error string | RetryFailed string nat "exn option"

section \<open>Character classes and the regular expression of the relative age\<close>

text \<open>
  The classes of the regular expression \<^verbatim>\<open>/(\d+)\s+(\w+)/\<close>: \<^verbatim>\<open>\d\<close> is an ASCII digit,
  \<^verbatim>\<open>\w\<close> an ASCII letter, digit or underscore, and \<^verbatim>\<open>\s\<close> a white-space code unit (tab,
  line feed, vertical tab, form feed, carriage return, space and the no-break space
  \<open>0xA0\<close> are the ones below 256).
\<close>

definition is_digit :: "char \<Rightarrow> bool" where
  "is_digit c = (c \<in> set ''0123456789'')"

definition is_upper :: "char \<Rightarrow> bool" where
  "is_upper c = (c \<in> set ''ABCDEFGHIJKLMNOPQRSTUVWXYZ'')"

definition is_lower :: "char \<Rightarrow> bool" where
  "is_lower c = (c \<in> set ''abcdefghijklmnopqrstuvwxyz'')"

definition is_word :: "char \<Rightarrow> bool" where
  "is_word c = (is_digit c \<or> is_upper c \<or> is_lower c \<or> c = CHR ''_'')"

definition is_space :: "char \<Rightarrow> bool" where
  "is_space c = (c \<in> set [CHR 0x09, CHR 0x0A, CHR 0x0B, CHR 0x0C, CHR 0x0D, CHR '' '', CHR 0xA0])"

text \<open>
  The quantifier \<^verbatim>\<open>+\<close> of the regular expression is greedy and backtracks: it takes as
  many characters of its class as there are, hands what it took and what is left to the
  rest of the expression (the continuation \<open>k\<close>), and gives back one character at a time
  as long as the rest fails; it needs at least one character.
\<close>

fun greedy_star ::
  "(char \<Rightarrow> bool) \<Rightarrow> string \<Rightarrow> string \<Rightarrow> (string \<Rightarrow> string \<Rightarrow> 'a option) \<Rightarrow> 'a option" where
  "greedy_star P taken [] k = k taken []"
| "greedy_star P taken (c # cs) k =
     (if P c then
        (case greedy_star P (taken @ [c]) cs k of
           Some r \<Rightarrow> Some r
         | None \<Rightarrow> k taken (c # cs))
      else k taken (c # cs))"

definition greedy_plus ::
  "(char \<Rightarrow> bool) \<Rightarrow> string \<Rightarrow> (string \<Rightarrow> string \<Rightarrow> 'a option) \<Rightarrow> 'a option" where
  "greedy_plus P s k =
     (case s of
        [] \<Rightarrow> None
      | c # cs \<Rightarrow> if P c then greedy_star P [c] cs k else None)"

text \<open>
  An attempt to match \<^verbatim>\<open>(\d+)\s+(\w+)\<close> at the very start of a string; the result is the
  pair of the two groups.
\<close>

definition match_at :: "string \<Rightarrow> (string \<times> string) option" where
  "match_at s =
     greedy_plus is_digit s (\<lambda>digits r1.
       greedy_plus is_space r1 (\<lambda>spaces r2.
         greedy_plus is_word r2 (\<lambda>word r3. Some (digits, word))))"

text \<open>
  \<^verbatim>\<open>ageText.match(/(\d+)\s+(\w+)/)\<close>: the expression is not anchored, so the attempt is made
  at every position from left to right and the first success is the match; \<open>None\<close> is
  \<^verbatim>\<open>null\<close>.
\<close>

fun regex_match :: "string \<Rightarrow> (string \<times> string) option" where
  "regex_match [] = None"
| "regex_match (c # cs) =
     (case match_at (c # cs) of
        Some m \<Rightarrow> Some m
      | None \<Rightarrow> regex_match cs)"

text \<open>
  \<^verbatim>\<open>Number(match[1])\<close> on a non-empty string of ASCII digits: the double nearest to its
  decimal value \<open>MV\<close> (the engines round the decimal value correctly).
\<close>

definition digit_value :: "char \<Rightarrow> int" where
  "digit_value c = int (of_char c) - 48"

definition MV :: "string \<Rightarrow> int" where
  "MV ds = foldl (\<lambda>acc c. 10 * acc + digit_value c) 0 ds"

definition Number_of_digits :: "string \<Rightarrow> int" where
  "Number_of_digits ds = to_double (MV ds)"

text \<open>\<^verbatim>\<open>toLowerCase\<close> on a string of word characters: only \<open>A\<close> to \<open>Z\<close> change.\<close>

definition lower_char :: "char \<Rightarrow> char" where
  "lower_char c = (if is_upper c then char_of (of_char c + (32::nat)) else c)"

definition toLowerCase :: "string \<Rightarrow> string" where
  "toLowerCase s = map lower_char s"

section \<open>Time parsing\<close>

text \<open>
  \<^verbatim>\<open>Date.parse\<close> is the host's own function; it is a parameter \<open>Date_parse\<close> of the model
  and gives a number, \<^verbatim>\<open>NaN\<close> for a string it does not accept.
\<close>

definition parseIsoTimestamp :: "(string \<Rightarrow> number) \<Rightarrow> string option \<Rightarrow> int option" where
  "parseIsoTimestamp Date_parse ageISO' =
     (case ageISO' of
        None \<Rightarrow> None
      | Some s \<Rightarrow>
          if s = [] then None
          else (case Date_parse s of NaN \<Rightarrow> None | Val t \<Rightarrow> Some t))"

definition parseRelativeAgeToTimestamp :: "string \<Rightarrow> int \<Rightarrow> int option" where
  "parseRelativeAgeToTimestamp ageText' nowMs =
     (case regex_match ageText' of
        None \<Rightarrow> None
      | Some (m1, m2) \<Rightarrow>
          (let value = Number_of_digits m1;
               unit = toLowerCase m2
           in if prefix ''second'' unit
              then Some (minus_double nowMs (times_double value 1000))
              else if prefix ''minute'' unit
              then Some (minus_double nowMs (times_double (times_double value 60) 1000))
              else if prefix ''hour'' unit
              then Some (minus_double nowMs
                     (times_double (times_double (times_double value 60) 60) 1000))
              else if prefix ''day'' unit
              then Some (minus_double nowMs
                     (times_double
                        (times_double (times_double (times_double value 24) 60) 60) 1000))
              else None))"

definition toTimestamp :: "(string \<Rightarrow> number) \<Rightarrow> 'a article_scheme \<Rightarrow> int \<Rightarrow> number" where
  "toTimestamp Date_parse a nowMs =
     (case parseIsoTimestamp Date_parse (ageISO a) of
        Some fromIso \<Rightarrow> Val fromIso
      | None \<Rightarrow>
          (case parseRelativeAgeToTimestamp (ageText a) nowMs of
             Some fromRelative \<Rightarrow> Val fromRelative
           | None \<Rightarrow> NaN))"

section \<open>Validation\<close>

text \<open>A non-negative integer inside a template literal: its decimal digits.\<close>

function show_nat :: "nat \<Rightarrow> string" where
  "show_nat n =
     (if n < 10 then [char_of (48 + n)]
      else show_nat (n div 10) @ [char_of (48 + n mod 10)])"
  by pat_completeness auto
termination
  by (relation "measure (\<lambda>n. n)") auto

declare show_nat.simps [simp del]

definition enrichArticlesWithTimestamps ::
  "(string \<Rightarrow> number) \<Rightarrow> article list \<Rightarrow> int \<Rightarrow> detail list" where
  "enrichArticlesWithTimestamps Date_parse articles nowMs =
     map (\<lambda>(i, a).
            \<lparr>title = title a, ageText = ageText a, ageISO = ageISO a,
             index = i + 1, timestamp = toTimestamp Date_parse a nowMs\<rparr>)
         (enumerate 0 articles)"

definition unparsable_message :: "detail \<Rightarrow> string" where
  "unparsable_message d =
     ''Unparsable timestamp for article #'' @ show_nat (index d) @ '': \"'' @ title d
       @ ''\" ('' @ ageText d @ '', ISO: ''
       @ (case ageISO d of None \<Rightarrow> ''none'' | Some s \<Rightarrow> s) @ '')''"

text \<open>The \<^verbatim>\<open>for ... of\<close> loop of \<^verbatim>\<open>checkTimestampsParsable\<close>, with its array \<open>probs\<close>.\<close>

fun parsable_loop :: "detail list \<Rightarrow> string list \<Rightarrow> string list" where
  "parsable_loop [] probs = probs"
| "parsable_loop (d # ds) probs =
     parsable_loop ds
       (if isNaN (timestamp d) then probs @ [unparsable_message d] else probs)"

definition checkTimestampsParsable :: "detail list \<Rightarrow> check_result" where
  "checkTimestampsParsable details' =
     (let probs = parsable_loop details' []
      in \<lparr>ok = (length probs = 0), problems = probs\<rparr>)"

definition ordering_message :: "detail \<Rightarrow> detail \<Rightarrow> string" where
  "ordering_message prev' curr' =
     ''Ordering issue between #'' @ show_nat (index prev') @ '' and #''
       @ show_nat (index curr') @ '': \"'' @ title prev' @ ''\" ('' @ ageText prev'
       @ '') appears before \"'' @ title curr' @ ''\" ('' @ ageText curr'
       @ ''), but has an *older* timestamp.''"

text \<open>
  The loop of \<^verbatim>\<open>checkSortedNewestToOldest\<close>, from index \<open>i\<close> on: \<^verbatim>\<open>continue\<close> and the end
  of the body go to \<open>i + 1\<close>, \<^verbatim>\<open>break\<close> leaves with the array as it is then. The loop starts
  at \<open>i = 1\<close>, so both reads are inside the array.
\<close>

function sorted_loop :: "detail list \<Rightarrow> nat \<Rightarrow> string list \<Rightarrow> string list" where
  "sorted_loop details' i probs =
     (if i < length details' then
        (let prev' = details' ! (i - 1);
             curr' = details' ! i
         in if isNaN (timestamp prev') \<or> isNaN (timestamp curr')
            then sorted_loop details' (i + 1) probs
            else if num_lt (timestamp prev') (timestamp curr')
            then probs @ [ordering_message prev' curr']
            else sorted_loop details' (i + 1) probs)
      else probs)"
  by pat_completeness auto
termination
  by (relation "measure (\<lambda>(ds, i, probs). length ds - i)") auto

declare sorted_loop.simps [simp del]

definition checkSortedNewestToOldest :: "detail list \<Rightarrow> check_result" where
  "checkSortedNewestToOldest details' =
     (let probs = sorted_loop details' 1 []
      in \<lparr>ok = (length probs = 0), problems = probs\<rparr>)"

definition validateArticles ::
  "(string \<Rightarrow> number) \<Rightarrow> article list \<Rightarrow> int \<Rightarrow> validation_result" where
  "validateArticles Date_parse articles nowMs =
     (let details' = enrichArticlesWithTimestamps Date_parse articles nowMs;
          parseCheck = checkTimestampsParsable details';
          sortCheck = checkSortedNewestToOldest details';
          probs = check_result.problems parseCheck @ check_result.problems sortCheck
      in \<lparr>isSorted = (ok parseCheck \<and> ok sortCheck), details = details', problems = probs\<rparr>)"

section \<open>Collection\<close>

text \<open>
  The browser is the world the collector acts on: a state \<open>'w\<close> and the operations of the
  page the program calls. Each operation gives its value or the error it throws, and the
  next state. Waiting (\<open>sleep\<close>) lets the world move on; what is written to the console
  is left out.
\<close>

record 'w page =
  waitForSelector :: "'w \<Rightarrow> (exn + unit) \<times> 'w"
  evalRows :: "'w \<Rightarrow> (exn + article list) \<times> 'w"
  queryMoreLink :: "'w \<Rightarrow> (exn + bool) \<times> 'w"
  clickAndWaitForURL :: "'w \<Rightarrow> (exn + unit) \<times> 'w"
  sleep :: "nat \<Rightarrow> 'w \<Rightarrow> 'w"

definition EXPECTED_ARTICLE_COUNT :: nat where
  "EXPECTED_ARTICLE_COUNT = 200"

definition MAX_PAGES_TO_VISIT :: nat where
  "MAX_PAGES_TO_VISIT = 10"

text \<open>
  The loop of \<^verbatim>\<open>withRetry\<close> from attempt \<open>i\<close> on: the value of the first attempt that does
  not throw, or \<open>RetryFailed\<close> once \<open>i\<close> is beyond \<open>attempts\<close>. The wait between two attempts
  is skipped after the last one.
\<close>

function withRetry_loop ::
  "'w page \<Rightarrow> ('w \<Rightarrow> (exn + 'a) \<times> 'w) \<Rightarrow> nat \<Rightarrow> nat \<Rightarrow> string \<Rightarrow> nat \<Rightarrow> exn option \<Rightarrow> 'w
     \<Rightarrow> (exn + 'a) \<times> 'w" where
  "withRetry_loop pg fn attempts delayMs label i lastError w =
     (if i \<le> attempts then
        (case fn w of
           (Inr v, w1) \<Rightarrow> (Inr v, w1)
         | (Inl err, w1) \<Rightarrow>
             withRetry_loop pg fn attempts delayMs label (i + 1) (Some err)
               (if i < attempts then sleep pg delayMs w1 else w1))
      else (Inl (RetryFailed label attempts lastError), w))"
  by pat_completeness auto
termination
  by (relation "measure (\<lambda>(pg, fn, attempts, delayMs, label, i, lastError, w). Suc attempts - i)")
    auto

declare withRetry_loop.simps [simp del]

definition withRetry ::
  "'w page \<Rightarrow> ('w \<Rightarrow> (exn + 'a) \<times> 'w) \<Rightarrow> nat \<Rightarrow> nat \<Rightarrow> string \<Rightarrow> 'w \<Rightarrow> (exn + 'a) \<times> 'w" where
  "withRetry pg fn attempts delayMs label w =
     withRetry_loop pg fn attempts delayMs label 1 None w"

text \<open>
  \<^verbatim>\<open>scrapeArticlesOnPage\<close>: a time-out of the wait for the rows is caught and gives the
  empty list; an error of the evaluation of the rows is not caught.
\<close>

definition scrapeArticlesOnPage :: "'w page \<Rightarrow> 'w \<Rightarrow> (exn + article list) \<times> 'w" where
  "scrapeArticlesOnPage pg w =
     (case waitForSelector pg w of
        (Inl err, w1) \<Rightarrow> (Inr [], w1)
      | (Inr u, w1) \<Rightarrow> evalRows pg w1)"

text \<open>
  \<^verbatim>\<open>navigateToNextPage\<close>: throws when there is no "More" link or when the click or the wait
  for the new URL fails; after a successful navigation it waits 500 ms.
\<close>

definition navigateToNextPage :: "'w page \<Rightarrow> 'w \<Rightarrow> (exn + unit) \<times> 'w" where
  "navigateToNextPage pg w =
     (case queryMoreLink pg w of
        (Inl err, w1) \<Rightarrow> (Inl err, w1)
      | (Inr moreLink, w1) \<Rightarrow>
          if \<not> moreLink then (Inl (Error ''Could not find \"More\" link for pagination.''), w1)
          else (case clickAndWaitForURL pg w1 of
                  (Inl err, w2) \<Rightarrow> (Inl err, w2)
                | (Inr u, w2) \<Rightarrow> (Inr (), sleep pg 500 w2)))"

text \<open>
  The \<^verbatim>\<open>while\<close> loop of \<^verbatim>\<open>getFirstNArticles\<close>, from the state \<open>collected\<close>,
  \<open>pagesVisited\<close>: every \<^verbatim>\<open>break\<close> and the failing loop test leave with the array
  \<open>collected\<close>; an error of the scrape leaves with that error.
\<close>

function collect_loop ::
  "'w page \<Rightarrow> nat \<Rightarrow> article list \<Rightarrow> nat \<Rightarrow> 'w \<Rightarrow> (exn + article list) \<times> 'w" where
  "collect_loop pg n collected pagesVisited w =
     (if length collected < n then
        (let pagesVisited1 = pagesVisited + 1
         in if pagesVisited1 > MAX_PAGES_TO_VISIT then (Inr collected, w)
            else
              (case scrapeArticlesOnPage pg w of
                 (Inl err, w1) \<Rightarrow> (Inl err, w1)
               | (Inr pageArticles, w1) \<Rightarrow>
                   if length pageArticles = 0 then (Inr collected, w1)
                   else
                     (let collected1 = collected @ pageArticles
                      in if length collected1 \<ge> n then (Inr collected1, w1)
                         else
                           (case withRetry pg (navigateToNextPage pg) 2 2000
                                   ''pagination navigation'' w1 of
                              (Inl err, w2) \<Rightarrow> (Inr collected1, w2)
                            | (Inr u, w2) \<Rightarrow> collect_loop pg n collected1 pagesVisited1 w2))))
      else (Inr collected, w))"
  by pat_completeness auto
termination
  by (relation "measure (\<lambda>(pg, n, collected, pagesVisited, w). Suc MAX_PAGES_TO_VISIT - pagesVisited)")
    auto

declare collect_loop.simps [simp del]

text \<open>
  \<^verbatim>\<open>getFirstNArticles\<close>: the loop from the empty array, then \<^verbatim>\<open>collected.slice(0, n)\<close>. The
  target \<open>n\<close> is a count, a natural number.
\<close>

definition getFirstNArticles :: "'w page \<Rightarrow> nat \<Rightarrow> 'w \<Rightarrow> (exn + article list) \<times> 'w" where
  "getFirstNArticles pg n w =
     (case collect_loop pg n [] 0 w of
        (Inl err, w1) \<Rightarrow> (Inl err, w1)
      | (Inr collected, w1) \<Rightarrow> (Inr (take n collected), w1))"

section \<open>Reporting\<close>

text \<open>
  The host's formatting: \<open>toISOString t\<close> is \<^verbatim>\<open>new Date(t).toISOString()\<close>, which throws a
  \<^verbatim>\<open>RangeError\<close> for an instant outside the range of dates, and \<open>toFixed2 a b\<close> is
  \<^verbatim>\<open>(a / b).toFixed(2)\<close>. Both are parameters.
\<close>

record host =
  toISOString :: "int \<Rightarrow> exn + string"
  toFixed2 :: "int \<Rightarrow> int \<Rightarrow> string"

text \<open>Sequencing of two steps, the first of which may throw.\<close>

definition and_then :: "exn + 'a \<Rightarrow> ('a \<Rightarrow> exn + 'b) \<Rightarrow> exn + 'b" where
  "and_then r f = (case r of Inl err \<Rightarrow> Inl err | Inr v \<Rightarrow> f v)"

text \<open>
  \<^verbatim>\<open>Math.min\<close> and \<^verbatim>\<open>Math.max\<close> of a non-empty array of finite numbers (the program calls
  them on such an array only).
\<close>

definition Math_min :: "int list \<Rightarrow> int" where
  "Math_min ts = Min (set ts)"

definition Math_max :: "int list \<Rightarrow> int" where
  "Math_max ts = Max (set ts)"

text \<open>
  The array \<^verbatim>\<open>timestamps\<close> of \<^verbatim>\<open>buildResultObject\<close>: the timestamps of the details that are
  not \<^verbatim>\<open>NaN\<close>, in order.
\<close>

definition parsable_timestamps :: "detail list \<Rightarrow> int list" where
  "parsable_timestamps details' =
     concat (map (\<lambda>d. case timestamp d of NaN \<Rightarrow> [] | Val t \<Rightarrow> [t]) details')"

text \<open>The constant \<^verbatim>\<open>stats\<close> of \<^verbatim>\<open>buildResultObject\<close>.\<close>

definition compute_stats :: "host \<Rightarrow> detail list \<Rightarrow> exn + stats option" where
  "compute_stats h details' =
     (let timestamps = parsable_timestamps details'
      in if length timestamps > 0 then
           and_then (toISOString h (Math_min timestamps)) (\<lambda>oldest.
           and_then (toISOString h (Math_max timestamps)) (\<lambda>newest.
             Inr (Some \<lparr>oldestTimestamp = oldest,
                        newestTimestamp = newest,
                        timeSpanHours =
                          toFixed2 h (Math_max timestamps - Math_min timestamps) (1000 * 60 * 60),
                        unparsableCount =
                          length (filter (\<lambda>d. isNaN (timestamp d)) details')\<rparr>)))
         else Inr None)"

text \<open>
  The two samples. \<^verbatim>\<open>slice(0, 5)\<close> is the first five rows (all of them if there are
  fewer) and \<^verbatim>\<open>slice(-3)\<close> the last three (all of them if there are fewer).
\<close>

definition sample_first5 :: "article list \<Rightarrow> sample list" where
  "sample_first5 articles =
     map (\<lambda>(i, a). \<lparr>position = int i + 1, title = title a, age = ageText a\<rparr>)
         (enumerate 0 (take 5 articles))"

definition sample_last3 :: "article list \<Rightarrow> sample list" where
  "sample_last3 articles =
     map (\<lambda>(i, a). \<lparr>position = int (length articles) - 2 + int i, title = title a,
                    age = ageText a\<rparr>)
         (enumerate 0 (drop (length articles - 3) articles))"

definition buildResultObject ::
  "host \<Rightarrow> article list \<Rightarrow> validation_result \<Rightarrow> int \<Rightarrow> int \<Rightarrow> exn + report" where
  "buildResultObject h articles validationResult startedAt' finishedAt' =
     and_then (compute_stats h (details validationResult)) (\<lambda>stats.
     and_then (toISOString h startedAt') (\<lambda>started.
     and_then (toISOString h finishedAt') (\<lambda>finished.
       Inr \<lparr>meta =
              \<lparr>startedAt = started,
               finishedAt = finished,
               durationMs = finishedAt' - startedAt',
               durationSeconds = toFixed2 h (finishedAt' - startedAt') 1000,
               expectedCount = EXPECTED_ARTICLE_COUNT,
               actualCount = length articles\<rparr>,
            validation =
              \<lparr>passed = isSorted validationResult,
               isSorted = isSorted validationResult,
               problemCount = length (problems validationResult),
               problems = problems validationResult\<rparr>,
            statistics = stats,
            sampleArticles =
              \<lparr>first5 = sample_first5 articles, last3 = sample_last3 articles\<rparr>\<rparr>)))"


section \<open>Shapes of input and example environments\<close>

text \<open>
  The shape \<open>integer word\<close> of a relative age: a non-empty run of digits, a non-empty run
  of white space and a non-empty run of word characters.
\<close>

definition integer_word :: "string \<Rightarrow> string \<Rightarrow> string \<Rightarrow> bool" where
  "integer_word ds ws u =
     (ds \<noteq> [] \<and> list_all is_digit ds \<and> ws \<noteq> [] \<and> list_all is_space ws
      \<and> u \<noteq> [] \<and> list_all is_word u)"

text \<open>
  The number a string of decimal digits denotes, by the place of each digit: the digit at
  place \<open>i\<close> from the left counts \<open>10 ^ (length ds - 1 - i)\<close> times.
\<close>

definition decimal_value :: "string \<Rightarrow> int" where
  "decimal_value ds =
     (\<Sum>i<length ds. (int (of_char (ds ! i)) - 48) * 10 ^ (length ds - 1 - i))"

text \<open>
  A \<^verbatim>\<open>Date.parse\<close> for the examples: it knows one date-time and rejects any other string.
\<close>

definition Date_parse_example :: "string \<Rightarrow> number" where
  "Date_parse_example s =
     (if s = ''2025-01-05T13:45:00.000Z'' then Val 1736084700000 else NaN)"

text \<open>
  An adjacent inversion at \<open>k\<close> (counted from 0): both rows \<open>k\<close> and \<open>k + 1\<close> have an
  instant, and the instant of row \<open>k\<close> is strictly smaller. \<open>inversions\<close> lists the places
  of all adjacent inversions, in order.
\<close>

definition inversion_at :: "detail list \<Rightarrow> nat \<Rightarrow> bool" where
  "inversion_at ds k =
     (Suc k < length ds \<and>
      (case (timestamp (ds ! k), timestamp (ds ! Suc k)) of
         (Val a, Val b) \<Rightarrow> a < b
       | _ \<Rightarrow> False))"

definition inversions :: "detail list \<Rightarrow> nat list" where
  "inversions ds = filter (inversion_at ds) [0..<length ds - 1]"

text \<open>
  Rows for the examples: a list with one unparsable row and one inversion after it, and a
  list in order with two equal instants.
\<close>

definition articles_inverted :: "article list" where
  "articles_inverted =
     [\<lparr>title = ''A'', ageText = ''1 minute ago'', ageISO = None\<rparr>,
      \<lparr>title = ''B'', ageText = ''soon'', ageISO = None\<rparr>,
      \<lparr>title = ''C'', ageText = ''5 minutes ago'', ageISO = None\<rparr>,
      \<lparr>title = ''D'', ageText = ''3 minutes ago'', ageISO = Some ''not a date''\<rparr>,
      \<lparr>title = ''E'', ageText = ''10 minutes ago'', ageISO = None\<rparr>]"

definition articles_sorted :: "article list" where
  "articles_sorted =
     [\<lparr>title = ''A'', ageText = ''1 minute ago'', ageISO = None\<rparr>,
      \<lparr>title = ''B'', ageText = ''1 minute ago'', ageISO = None\<rparr>,
      \<lparr>title = ''C'', ageText = ''9 days ago'', ageISO = Some ''2025-01-05T13:45:00.000Z''\<rparr>,
      \<lparr>title = ''D'', ageText = ''5 minutes ago'', ageISO = None\<rparr>]"

text \<open>
  Browsers for the examples, with the number of the page shown as state. In
  \<open>page_example\<close> every page has four rows, the "More" link always works and the rows stop
  appearing from page 3 on; in \<open>page_broken\<close> only page 0 has a "More" link.
\<close>

definition rows_example :: "article list" where
  "rows_example = replicate 4 \<lparr>title = ''A story'', ageText = ''1 minute ago'', ageISO = None\<rparr>"

definition page_example :: "nat page" where
  "page_example =
     \<lparr>waitForSelector = (\<lambda>p. (if p < 3 then Inr () else Inl (Error ''Timeout''), p)),
      evalRows = (\<lambda>p. (Inr rows_example, p)),
      queryMoreLink = (\<lambda>p. (Inr True, p)),
      clickAndWaitForURL = (\<lambda>p. (Inr (), p + 1)),
      sleep = (\<lambda>ms p. p)\<rparr>"

definition page_broken :: "nat page" where
  "page_broken = page_example\<lparr>queryMoreLink := (\<lambda>p. (Inr (p < 1), p))\<rparr>"

text \<open>
  A host for the examples: it renders the few instants the examples use and rejects any
  other, and it knows the two quotients the examples format.
\<close>

definition host_example :: host where
  "host_example =
     \<lparr>toISOString =
        (\<lambda>t. if t = 1736084220000 then Inr ''2025-01-05T13:37:00.000Z''
             else if t = 1736084760000 then Inr ''2025-01-05T13:46:00.000Z''
             else if t = 1736084800000 then Inr ''2025-01-05T13:46:40.000Z''
             else if t = 1736084820500 then Inr ''2025-01-05T13:47:00.500Z''
             else Inl (Error ''RangeError: Invalid time value'')),
      toFixed2 =
        (\<lambda>a b. if a = 540000 \<and> b = 3600000 then ''0.15''
               else if a = 20500 \<and> b = 1000 then ''20.50''
               else ''0.00'')\<rparr>"

text \<open>The set of the instants of the rows that have one.\<close>

definition instants :: "detail list \<Rightarrow> int set" where
  "instants ds = {t. \<exists>d\<in>set ds. timestamp d = Val t}"

section \<open>Properties of the regular expression\<close>

lemma digit_not_space: "is_digit c \<Longrightarrow> \<not> is_space c"
  by (auto simp: is_digit_def is_space_def)

lemma space_not_word: "is_space c \<Longrightarrow> \<not> is_word c"
  by (auto simp: is_digit_def is_space_def is_word_def is_upper_def is_lower_def)

lemma space_not_digit: "is_space c \<Longrightarrow> \<not> is_digit c"
  by (auto simp: is_digit_def is_space_def)

text \<open>
  No character is both a digit and white space, or both white space and a word character.
  So giving back a character of a run never lets the next part of the expression match,
  and an attempt succeeds exactly when the three longest runs are non-empty.
\<close>

lemma greedy_star_longest:
  assumes "k (taken @ takeWhile P s) (dropWhile P s) \<noteq> None
      \<or> (\<forall>t r. r \<noteq> [] \<and> P (hd r) \<longrightarrow> k t r = None)"
  shows "greedy_star P taken s k = k (taken @ takeWhile P s) (dropWhile P s)"
  using assms
proof (induction s arbitrary: taken)
  case Nil
  then show ?case by simp
next
  case (Cons c cs)
  show ?case
  proof (cases "P c")
    case False
    then show ?thesis by simp
  next
    case True
    have ih: "greedy_star P (taken @ [c]) cs k = k ((taken @ [c]) @ takeWhile P cs) (dropWhile P cs)"
      using Cons.prems True by (intro Cons.IH) simp
    show ?thesis
    proof (cases "k ((taken @ [c]) @ takeWhile P cs) (dropWhile P cs)")
      case (Some r)
      then show ?thesis using True ih by simp
    next
      case None
      then have "\<forall>t r. r \<noteq> [] \<and> P (hd r) \<longrightarrow> k t r = None"
        using Cons.prems True by simp
      then have "k taken (c # cs) = None" using True by simp
      then show ?thesis using True ih None by simp
    qed
  qed
qed

lemma greedy_plus_longest:
  assumes "k (takeWhile P s) (dropWhile P s) \<noteq> None
      \<or> (\<forall>t r. r \<noteq> [] \<and> P (hd r) \<longrightarrow> k t r = None)"
  shows "greedy_plus P s k =
     (if takeWhile P s = [] then None else k (takeWhile P s) (dropWhile P s))"
proof (cases s)
  case Nil
  then show ?thesis by (simp add: greedy_plus_def)
next
  case (Cons c cs)
  show ?thesis
  proof (cases "P c")
    case False
    then show ?thesis by (simp add: greedy_plus_def Cons)
  next
    case True
    have "greedy_star P [c] cs k = k ([c] @ takeWhile P cs) (dropWhile P cs)"
      using assms True by (intro greedy_star_longest) (simp add: Cons)
    then show ?thesis using True by (simp add: greedy_plus_def Cons)
  qed
qed

lemma greedy_plus_wrong_start:
  "s \<noteq> [] \<and> \<not> P (hd s) \<Longrightarrow> greedy_plus P s k = None"
  by (cases s) (simp_all add: greedy_plus_def)

lemma word_step:
  "greedy_plus is_word r (\<lambda>word r3. Some (d, word)) =
     (if takeWhile is_word r = [] then None else Some (d, takeWhile is_word r))"
  using greedy_plus_longest [where P = is_word and s = r and k = "\<lambda>word r3. Some (d, word)"]
  by simp

lemma space_step:
  "greedy_plus is_space r (\<lambda>spaces r2. greedy_plus is_word r2 kw) =
     (if takeWhile is_space r = [] then None
      else greedy_plus is_word (dropWhile is_space r) kw)"
proof -
  have "greedy_plus is_word r' kw = None" if "r' \<noteq> [] \<and> is_space (hd r')" for r'
  proof -
    from that have "r' \<noteq> [] \<and> \<not> is_word (hd r')"
      using space_not_word by blast
    then show ?thesis by (rule greedy_plus_wrong_start)
  qed
  then have fails: "\<forall>t r'. r' \<noteq> [] \<and> is_space (hd r') \<longrightarrow>
      (\<lambda>spaces r2. greedy_plus is_word r2 kw) t r' = None"
    by blast
  show ?thesis
    by (rule greedy_plus_longest
        [where P = is_space and k = "\<lambda>spaces r2. greedy_plus is_word r2 kw", OF disjI2 [OF fails]])
qed

lemma digit_step:
  "greedy_plus is_digit s (\<lambda>digits r1. greedy_plus is_space r1 (ks digits)) =
     (if takeWhile is_digit s = [] then None
      else greedy_plus is_space (dropWhile is_digit s) (ks (takeWhile is_digit s)))"
proof -
  have "greedy_plus is_space r' k = None" if "r' \<noteq> [] \<and> is_digit (hd r')" for r' k
  proof -
    from that have "r' \<noteq> [] \<and> \<not> is_space (hd r')"
      using digit_not_space by blast
    then show ?thesis by (rule greedy_plus_wrong_start)
  qed
  then have fails: "\<forall>t r'. r' \<noteq> [] \<and> is_digit (hd r') \<longrightarrow>
      (\<lambda>digits r1. greedy_plus is_space r1 (ks digits)) t r' = None"
    by blast
  show ?thesis
    by (rule greedy_plus_longest
        [where P = is_digit and k = "\<lambda>digits r1. greedy_plus is_space r1 (ks digits)",
          OF disjI2 [OF fails]])
qed

lemma match_at_runs:
  "match_at s =
     (let digits = takeWhile is_digit s;
          r1 = dropWhile is_digit s;
          spaces = takeWhile is_space r1;
          r2 = dropWhile is_space r1;
          word = takeWhile is_word r2
      in if digits \<noteq> [] \<and> spaces \<noteq> [] \<and> word \<noteq> [] then Some (digits, word) else None)"
proof -
  have "match_at s =
     (if takeWhile is_digit s = [] then None
      else greedy_plus is_space (dropWhile is_digit s) (\<lambda>spaces r2.
             greedy_plus is_word r2 (\<lambda>word r3. Some (takeWhile is_digit s, word))))"
    unfolding match_at_def by (rule digit_step)
  also have "\<dots> =
     (if takeWhile is_digit s = [] then None
      else if takeWhile is_space (dropWhile is_digit s) = [] then None
      else greedy_plus is_word (dropWhile is_space (dropWhile is_digit s))
             (\<lambda>word r3. Some (takeWhile is_digit s, word)))"
    by (simp only: space_step)
  finally show ?thesis
    by (simp add: word_step Let_def)
qed

lemma takeWhile_run:
  assumes "\<forall>x\<in>set xs. P x" and "ys = [] \<or> \<not> P (hd ys)"
  shows "takeWhile P (xs @ ys) = xs" and "dropWhile P (xs @ ys) = ys"
  using assms by (cases ys; simp)+

lemma match_at_pattern:
  assumes ds: "ds \<noteq> []" "\<forall>c\<in>set ds. is_digit c"
    and ws: "ws \<noteq> []" "\<forall>c\<in>set ws. is_space c"
    and u: "u \<noteq> []" "\<forall>c\<in>set u. is_word c"
  shows "match_at (ds @ ws @ u @ rest) = Some (ds, u @ takeWhile is_word rest)"
proof -
  have a: "ws @ u @ rest = [] \<or> \<not> is_digit (hd (ws @ u @ rest))"
    using ws by (cases ws) (auto dest: space_not_digit)
  have b: "u @ rest = [] \<or> \<not> is_space (hd (u @ rest))"
    using u by (cases u) (auto dest: space_not_word)
  have 1: "takeWhile is_digit (ds @ ws @ u @ rest) = ds"
    and 2: "dropWhile is_digit (ds @ ws @ u @ rest) = ws @ u @ rest"
    using takeWhile_run [OF ds(2) a] by simp_all
  have 3: "takeWhile is_space (ws @ u @ rest) = ws"
    and 4: "dropWhile is_space (ws @ u @ rest) = u @ rest"
    using takeWhile_run [OF ws(2) b] by simp_all
  have 5: "takeWhile is_word (u @ rest) = u @ takeWhile is_word rest"
    using u(2) by (simp add: takeWhile_append2)
  show ?thesis
    unfolding match_at_runs Let_def 1 2 3 4 5 using ds(1) ws(1) u(1) by simp
qed

lemma regex_match_pattern:
  assumes ds: "ds \<noteq> []" "\<forall>c\<in>set ds. is_digit c"
    and ws: "ws \<noteq> []" "\<forall>c\<in>set ws. is_space c"
    and u: "u \<noteq> []" "\<forall>c\<in>set u. is_word c"
  shows "regex_match (ds @ ws @ u @ rest) = Some (ds, u @ takeWhile is_word rest)"
proof -
  obtain c cs where s: "ds @ ws @ u @ rest = c # cs"
    using ds(1) by (cases ds) auto
  have "regex_match (c # cs) = Some (ds, u @ takeWhile is_word rest)"
    using match_at_pattern [OF assms, of rest] by (simp add: s)
  then show ?thesis by (simp add: s)
qed

lemma toLowerCase_prefix_append:
  "prefix p (toLowerCase u) \<Longrightarrow> prefix p (toLowerCase (u @ v))"
  by (simp add: toLowerCase_def prefix_prefix)

lemma unit_prefixes_exclusive:
  "prefix ''minute'' x \<Longrightarrow> \<not> prefix ''second'' x"
  "prefix ''hour'' x \<Longrightarrow> \<not> prefix ''second'' x \<and> \<not> prefix ''minute'' x"
  "prefix ''day'' x \<Longrightarrow> \<not> prefix ''second'' x \<and> \<not> prefix ''minute'' x \<and> \<not> prefix ''hour'' x"
  by (auto simp: prefix_def)

lemma match_at_sound:
  assumes "match_at s = Some (ds, w)"
  shows "\<exists>ws rest. s = ds @ ws @ w @ rest \<and> integer_word ds ws w"
proof -
  let ?r1 = "dropWhile is_digit s"
  let ?ws = "takeWhile is_space ?r1"
  let ?r2 = "dropWhile is_space ?r1"
  let ?rest = "dropWhile is_word ?r2"
  from assms have ds: "ds = takeWhile is_digit s" and w: "w = takeWhile is_word ?r2"
    and ne: "ds \<noteq> []" "?ws \<noteq> []" "w \<noteq> []"
    by (auto simp: match_at_runs Let_def split: if_splits)
  have "s = ds @ ?r1" by (simp add: ds)
  also have "?r1 = ?ws @ ?r2" by simp
  also have "?r2 = w @ ?rest" by (simp add: w)
  finally have "s = ds @ ?ws @ w @ ?rest" .
  moreover have "integer_word ds ?ws w"
    using ne by (auto simp: integer_word_def ds w list_all_iff dest: set_takeWhileD)
  ultimately show ?thesis by blast
qed

lemma regex_match_sound:
  "regex_match s = Some (ds, w) \<Longrightarrow>
     \<exists>pre ws rest. s = pre @ ds @ ws @ w @ rest \<and> integer_word ds ws w"
proof (induction s)
  case Nil
  then show ?case by simp
next
  case (Cons c cs)
  show ?case
  proof (cases "match_at (c # cs)")
    case None
    with Cons.prems have "regex_match cs = Some (ds, w)" by simp
    from Cons.IH [OF this] obtain pre ws rest
      where "cs = pre @ ds @ ws @ w @ rest" "integer_word ds ws w" by blast
    then have "c # cs = (c # pre) @ ds @ ws @ w @ rest \<and> integer_word ds ws w" by simp
    then show ?thesis by blast
  next
    case (Some m)
    with Cons.prems have "match_at (c # cs) = Some (ds, w)" by simp
    from match_at_sound [OF this] obtain ws rest
      where "c # cs = [] @ ds @ ws @ w @ rest \<and> integer_word ds ws w" by auto
    then show ?thesis by blast
  qed
qed

lemma regex_match_complete:
  assumes "integer_word ds ws u"
  shows "regex_match (pre @ ds @ ws @ u @ rest) \<noteq> None"
proof (induction pre)
  case Nil
  show ?case
    using regex_match_pattern [of ds ws u rest] assms
    by (simp add: integer_word_def list_all_iff)
next
  case (Cons c pre)
  then show ?case by (simp split: option.splits)
qed

lemma regex_match_None_iff:
  "regex_match s = None \<longleftrightarrow>
     \<not> (\<exists>pre ds ws u rest. s = pre @ ds @ ws @ u @ rest \<and> integer_word ds ws u)"
proof
  assume "regex_match s = None"
  then show "\<not> (\<exists>pre ds ws u rest. s = pre @ ds @ ws @ u @ rest \<and> integer_word ds ws u)"
    using regex_match_complete by metis
next
  assume no: "\<not> (\<exists>pre ds ws u rest. s = pre @ ds @ ws @ u @ rest \<and> integer_word ds ws u)"
  show "regex_match s = None"
  proof (cases "regex_match s")
    case None
    then show ?thesis .
  next
    case (Some m)
    then have "regex_match s = Some (fst m, snd m)" by simp
    from regex_match_sound [OF this] no show ?thesis by blast
  qed
qed


section \<open>Properties of the time parsing\<close>

text \<open>
  \<open>MV\<close> is the number the digits denote by their places, and it reads what \<open>show_nat\<close>
  writes.
\<close>

lemma MV_snoc: "MV (ds @ [c]) = 10 * MV ds + digit_value c"
  by (simp add: MV_def)

lemma decimal_value_snoc:
  "decimal_value (ds @ [c]) = 10 * decimal_value ds + (int (of_char c) - 48)"
proof -
  let ?n = "length ds"
  have "(\<Sum>i<?n. (int (of_char ((ds @ [c]) ! i)) - 48) * 10 ^ (Suc ?n - 1 - i))
      = (\<Sum>i<?n. 10 * ((int (of_char (ds ! i)) - 48) * 10 ^ (?n - 1 - i)))"
  proof (rule sum.cong)
    fix i assume "i \<in> {..<?n}"
    then have i: "i < ?n" by simp
    then have "Suc ?n - 1 - i = Suc (?n - 1 - i)" by simp
    then show "(int (of_char ((ds @ [c]) ! i)) - 48) * 10 ^ (Suc ?n - 1 - i)
        = 10 * ((int (of_char (ds ! i)) - 48) * 10 ^ (?n - 1 - i))"
      using i by (simp add: nth_append)
  qed simp
  then show ?thesis
    by (simp add: decimal_value_def sum_distrib_left)
qed

lemma MV_decimal_value: "MV ds = decimal_value ds"
proof (induction ds rule: rev_induct)
  case Nil
  then show ?case by (simp add: MV_def decimal_value_def)
next
  case (snoc c ds)
  then show ?case by (simp add: MV_snoc decimal_value_snoc digit_value_def)
qed

lemma digit_value_char_of:
  "d < 10 \<Longrightarrow> digit_value (char_of (48 + d)) = int d"
  by (simp add: digit_value_def)

lemma MV_show_nat: "MV (show_nat n) = int n"
proof (induction n rule: show_nat.induct)
  case (1 n)
  show ?case
  proof (cases "n < 10")
    case True
    then show ?thesis
      by (subst show_nat.simps) (simp add: MV_def digit_value_char_of)
  next
    case False
    have "MV (show_nat n) =
        10 * MV (show_nat (n div 10)) + digit_value (char_of (48 + n mod 10))"
      using False by (subst show_nat.simps) (simp add: MV_snoc)
    also have "\<dots> = 10 * int (n div 10) + int (n mod 10)"
      using False by (simp add: "1.IH" digit_value_char_of)
    also have "\<dots> = int n"
      by (simp add: zdiv_int zmod_int)
    finally show ?thesis .
  qed
qed

lemma digit_value_nonneg: "is_digit c \<Longrightarrow> 0 \<le> digit_value c"
  by (auto simp: is_digit_def digit_value_def)

lemma MV_nonneg: "\<forall>c\<in>set ds. is_digit c \<Longrightarrow> 0 \<le> MV ds"
proof (induction ds rule: rev_induct)
  case Nil
  then show ?case by (simp add: MV_def)
next
  case (snoc c ds)
  then have "0 \<le> MV ds" and "0 \<le> digit_value c"
    by (simp_all add: digit_value_nonneg)
  then show ?case by (simp add: MV_snoc)
qed

text \<open>Below \<open>2^53\<close> in magnitude nothing is rounded.\<close>

lemma to_double_exact: "\<bar>x\<bar> < 2 ^ 53 \<Longrightarrow> to_double x = x"
  by (simp add: to_double_def)

text \<open>
  Some values of \<open>to_double\<close>: the first integers that are no doubles, a tie that goes to
  the even mantissa in each direction, and the largest finite double with the first integer
  that becomes \<^verbatim>\<open>Infinity\<close>.
\<close>

lemma to_double_examples:
  "to_double 9007199254740992 = 9007199254740992"
  "to_double 9007199254740993 = 9007199254740992"
  "to_double 9007199254740994 = 9007199254740994"
  "to_double 9007199254740995 = 9007199254740996"
  "to_double (- 9007199254740993000) = - 9007199254740993024"
  "to_double (2 ^ 1024 - 2 ^ 971) = 2 ^ 1024 - 2 ^ 971"
  "to_double (2 ^ 1024 - 2 ^ 970 - 1) = 2 ^ 1024 - 2 ^ 971"
  "to_double (2 ^ 1024 - 2 ^ 970) = 2 ^ 1024"
  by code_simp+

lemma times_double_exact:
  "0 \<le> a * b \<Longrightarrow> a * b < 2 ^ 53 \<Longrightarrow> times_double a b = a * b"
  by (simp add: times_double_def to_double_exact)

lemma minus_double_exact:
  "\<bar>a - b\<bar> < 2 ^ 53 \<Longrightarrow> minus_double a b = a - b"
  by (simp add: minus_double_def to_double_exact)

lemma parseRelative_exact:
  assumes m: "regex_match s = Some (ds, w)"
    and unit: "(p, k) \<in> set [(''second'', 1), (''minute'', 60), (''hour'', 3600), (''day'', 86400)]"
      "prefix p (toLowerCase w)"
    and v: "0 \<le> MV ds"
    and range: "MV ds * k * 1000 < 2 ^ 53" "\<bar>nowMs - MV ds * k * 1000\<bar> < 2 ^ 53"
  shows "parseRelativeAgeToTimestamp s nowMs = Some (nowMs - MV ds * k * 1000)"
proof -
  let ?v = "MV ds"
  note excl = unit_prefixes_exclusive [of "toLowerCase w"]
  from unit(1) consider (second) "p = ''second''" "k = 1" | (minute) "p = ''minute''" "k = 60"
    | (hour) "p = ''hour''" "k = 3600" | (day) "p = ''day''" "k = 86400"
    by auto
  then show ?thesis
  proof cases
    case second
    have n: "Number_of_digits ds = ?v"
      using v range(1) second by (simp add: Number_of_digits_def to_double_exact)
    have 1: "times_double ?v 1000 = ?v * 1000"
      using v range(1) second by (intro times_double_exact) simp_all
    have 2: "minus_double nowMs (?v * 1000) = nowMs - ?v * 1000"
      using range(2) second by (intro minus_double_exact) simp
    have "minus_double nowMs (times_double (Number_of_digits ds) 1000) = nowMs - ?v * 1000"
      by (simp only: n 1 2)
    then show ?thesis
      using m unit(2) second by (simp add: parseRelativeAgeToTimestamp_def)
  next
    case minute
    have n: "Number_of_digits ds = ?v"
      using v range(1) minute by (simp add: Number_of_digits_def to_double_exact)
    have 1: "times_double ?v 60 = ?v * 60"
      using v range(1) minute by (intro times_double_exact) simp_all
    have 2: "times_double (?v * 60) 1000 = ?v * 60 * 1000"
      using v range(1) minute by (intro times_double_exact) simp_all
    have 3: "minus_double nowMs (?v * 60 * 1000) = nowMs - ?v * 60 * 1000"
      using range(2) minute by (intro minus_double_exact) simp
    have "minus_double nowMs (times_double (times_double (Number_of_digits ds) 60) 1000)
        = nowMs - ?v * 60 * 1000"
      by (simp only: n 1 2 3)
    then show ?thesis
      using m unit(2) minute excl by (simp add: parseRelativeAgeToTimestamp_def)
  next
    case hour
    have n: "Number_of_digits ds = ?v"
      using v range(1) hour by (simp add: Number_of_digits_def to_double_exact)
    have 1: "times_double ?v 60 = ?v * 60"
      using v range(1) hour by (intro times_double_exact) simp_all
    have 2: "times_double (?v * 60) 60 = ?v * 60 * 60"
      using v range(1) hour by (intro times_double_exact) simp_all
    have 3: "times_double (?v * 60 * 60) 1000 = ?v * 60 * 60 * 1000"
      using v range(1) hour by (intro times_double_exact) simp_all
    have 4: "minus_double nowMs (?v * 60 * 60 * 1000) = nowMs - ?v * 60 * 60 * 1000"
      using range(2) hour by (intro minus_double_exact) simp
    have "minus_double nowMs
          (times_double (times_double (times_double (Number_of_digits ds) 60) 60) 1000)
        = nowMs - ?v * 60 * 60 * 1000"
      by (simp only: n 1 2 3 4)
    then show ?thesis
      using m unit(2) hour excl by (simp add: parseRelativeAgeToTimestamp_def)
  next
    case day
    have n: "Number_of_digits ds = ?v"
      using v range(1) day by (simp add: Number_of_digits_def to_double_exact)
    have 1: "times_double ?v 24 = ?v * 24"
      using v range(1) day by (intro times_double_exact) simp_all
    have 2: "times_double (?v * 24) 60 = ?v * 24 * 60"
      using v range(1) day by (intro times_double_exact) simp_all
    have 3: "times_double (?v * 24 * 60) 60 = ?v * 24 * 60 * 60"
      using v range(1) day by (intro times_double_exact) simp_all
    have 4: "times_double (?v * 24 * 60 * 60) 1000 = ?v * 24 * 60 * 60 * 1000"
      using v range(1) day by (intro times_double_exact) simp_all
    have 5: "minus_double nowMs (?v * 24 * 60 * 60 * 1000) = nowMs - ?v * 24 * 60 * 60 * 1000"
      using range(2) day by (intro minus_double_exact) simp
    have "minus_double nowMs
          (times_double
             (times_double (times_double (times_double (Number_of_digits ds) 24) 60) 60) 1000)
        = nowMs - ?v * 24 * 60 * 60 * 1000"
      by (simp only: n 1 2 3 4 5)
    then show ?thesis
      using m unit(2) day excl by (simp add: parseRelativeAgeToTimestamp_def)
  qed
qed

lemma parseIso_None:
  assumes "ageISO a = None \<or> ageISO a = Some [] \<or> (\<exists>s. ageISO a = Some s \<and> Date_parse s = NaN)"
  shows "parseIsoTimestamp Date_parse (ageISO a) = None"
  using assms by (auto simp: parseIsoTimestamp_def)

text \<open>
  Claim C1, as amended. An item whose absolute hint is absent (\<^verbatim>\<open>null\<close> or empty) or
  rejected by \<^verbatim>\<open>Date.parse\<close>, and whose age text is \<open>N unit ...\<close> (digits, white space, a
  word whose lower-case form starts with \<open>second\<close>, \<open>minute\<close>, \<open>hour\<close> or \<open>day\<close>, then
  anything, for instance \<open>ago\<close>) gets exactly the timestamp \<open>now - N * unitSeconds * 1000\<close>,
  with \<open>unitSeconds\<close> 1, 60, 3600 or 86400 and \<open>N\<close> the number the digits denote, as long
  as \<open>N * unitSeconds * 1000\<close> and the timestamp are below \<open>2^53\<close> in magnitude, where the
  numbers of the program are exact.
\<close>

theorem toTimestamp_relative_age:
  assumes hint: "ageISO a = None \<or> ageISO a = Some [] \<or> (\<exists>s. ageISO a = Some s \<and> Date_parse s = NaN)"
    and shape: "ageText a = ds @ ws @ u @ rest"
    and ds: "ds \<noteq> []" "\<forall>c\<in>set ds. is_digit c"
    and ws: "ws \<noteq> []" "\<forall>c\<in>set ws. is_space c"
    and u: "\<forall>c\<in>set u. is_word c"
    and unit: "(p, unitSeconds) \<in> set [(''second'', 1), (''minute'', 60), (''hour'', 3600), (''day'', 86400)]"
      "prefix p (toLowerCase u)"
    and range: "decimal_value ds * unitSeconds * 1000 < 2 ^ 53"
      "\<bar>nowMs - decimal_value ds * unitSeconds * 1000\<bar> < 2 ^ 53"
  shows "toTimestamp Date_parse a nowMs = Val (nowMs - decimal_value ds * unitSeconds * 1000)"
proof -
  have "u \<noteq> []"
    using unit by (auto simp: toLowerCase_def)
  then have m: "regex_match (ageText a) = Some (ds, u @ takeWhile is_word rest)"
    using regex_match_pattern [OF ds ws _ u, of rest] shape by simp
  have pre: "prefix p (toLowerCase (u @ takeWhile is_word rest))"
    using unit(2) by (rule toLowerCase_prefix_append)
  have "parseRelativeAgeToTimestamp (ageText a) nowMs
      = Some (nowMs - MV ds * unitSeconds * 1000)"
    using range by (intro parseRelative_exact [OF m unit(1) pre MV_nonneg [OF ds(2)]])
      (simp_all add: MV_decimal_value)
  then show ?thesis
    using parseIso_None [OF hint] by (simp add: toTimestamp_def MV_decimal_value)
qed

theorem toTimestamp_relative_age_witness:
  "toTimestamp Date_parse_example
     \<lparr>title = ''A story'', ageText = ''15 Minutes ago'', ageISO = Some ''yesterday''\<rparr> 1736084700000
   = Val 1736083800000"
proof -
  let ?a = "\<lparr>title = ''A story'', ageText = ''15 Minutes ago'', ageISO = Some ''yesterday''\<rparr>"
  have 1: "ageISO ?a = None \<or> ageISO ?a = Some []
      \<or> (\<exists>s. ageISO ?a = Some s \<and> Date_parse_example s = NaN)"
    by (simp add: Date_parse_example_def)
  have 2: "ageText ?a = ''15'' @ '' '' @ ''Minutes'' @ '' ago''"
    by simp
  have 3: "''15'' \<noteq> []" "\<forall>c\<in>set ''15''. is_digit c"
    by (simp_all add: is_digit_def)
  have 4: "'' '' \<noteq> []" "\<forall>c\<in>set '' ''. is_space c"
    by (simp_all add: is_space_def)
  have 5: "\<forall>c\<in>set ''Minutes''. is_word c"
    by (simp add: is_word_def is_lower_def is_upper_def)
  have 6: "(''minute'', 60) \<in> set [(''second'', 1), (''minute'', 60), (''hour'', 3600), (''day'', 86400::int)]"
    by simp
  have 7: "prefix ''minute'' (toLowerCase ''Minutes'')"
    by code_simp
  have 8: "decimal_value ''15'' = 15"
    by (simp add: decimal_value_def lessThan_Suc numeral_2_eq_2)
  have 9: "decimal_value ''15'' * 60 * 1000 < 2 ^ 53"
    "\<bar>1736084700000 - decimal_value ''15'' * 60 * 1000\<bar> < 2 ^ 53"
    by (simp_all add: 8)
  show ?thesis
    using toTimestamp_relative_age [OF 1 2 3 4 5 6 7 9] by (simp add: 8)
qed

text \<open>
  Claim C1 as stated fails where the numbers of the program are no longer exact:
  \<^verbatim>\<open>Number('9007199254740993')\<close> is \<open>9007199254740992\<close>, so with the reference time 0 the
  program returns \<open>-9007199254740992000\<close> and not \<open>0 - 9007199254740993 * 1 * 1000\<close>.
\<close>

theorem toTimestamp_relative_age_rounding_counterexample:
  "decimal_value ''9007199254740993'' = 9007199254740993
   \<and> toTimestamp Date_parse_example
       \<lparr>title = ''A story'', ageText = ''9007199254740993 seconds ago'', ageISO = None\<rparr> 0
     = Val (- 9007199254740992000)
   \<and> toTimestamp Date_parse_example
       \<lparr>title = ''A story'', ageText = ''9007199254740993 seconds ago'', ageISO = None\<rparr> 0
     \<noteq> Val (0 - decimal_value ''9007199254740993'' * 1 * 1000)"
proof -
  have d: "decimal_value ''9007199254740993'' = 9007199254740993"
    unfolding MV_decimal_value [symmetric] by code_simp
  have t: "toTimestamp Date_parse_example
       \<lparr>title = ''A story'', ageText = ''9007199254740993 seconds ago'', ageISO = None\<rparr> 0
     = Val (- 9007199254740992000)"
    by code_simp
  show ?thesis
    unfolding t d by simp
qed

text \<open>
  Claim C8. With no usable absolute hint, an age text that is empty, or contains no
  \<open>integer word\<close> shape anywhere, or starts with such a shape whose word is none of the
  four units (weeks, months, years, ...), gets \<^verbatim>\<open>NaN\<close>, the marker of an unparsable time.
  \<open>toTimestamp\<close> has no failing branch: it is a function into \<open>number\<close>.
\<close>

theorem toTimestamp_unparsable:
  assumes hint: "ageISO a = None \<or> ageISO a = Some [] \<or> (\<exists>s. ageISO a = Some s \<and> Date_parse s = NaN)"
    and rel: "ageText a = []
      \<or> \<not> (\<exists>pre ds ws u rest. ageText a = pre @ ds @ ws @ u @ rest \<and> integer_word ds ws u)
      \<or> (\<exists>ds ws u rest. ageText a = ds @ ws @ u @ rest \<and> integer_word ds ws u
            \<and> (rest = [] \<or> \<not> is_word (hd rest))
            \<and> (\<forall>p\<in>set [''second'', ''minute'', ''hour'', ''day'']. \<not> prefix p (toLowerCase u)))"
  shows "toTimestamp Date_parse a nowMs = NaN"
proof -
  from rel consider (empty) "ageText a = []"
    | (nomatch) "\<not> (\<exists>pre ds ws u rest. ageText a = pre @ ds @ ws @ u @ rest \<and> integer_word ds ws u)"
    | (unit) ds ws u rest where "ageText a = ds @ ws @ u @ rest" "integer_word ds ws u"
        "rest = [] \<or> \<not> is_word (hd rest)"
        "\<forall>p\<in>set [''second'', ''minute'', ''hour'', ''day'']. \<not> prefix p (toLowerCase u)"
    by blast
  then have "parseRelativeAgeToTimestamp (ageText a) nowMs = None"
  proof cases
    case empty
    then show ?thesis by (simp add: parseRelativeAgeToTimestamp_def)
  next
    case nomatch
    then have "regex_match (ageText a) = None" by (simp add: regex_match_None_iff)
    then show ?thesis by (simp add: parseRelativeAgeToTimestamp_def)
  next
    case unit
    have "takeWhile is_word rest = []"
      using unit(3) by (cases rest) auto
    then have "regex_match (ageText a) = Some (ds, u)"
      using regex_match_pattern [of ds ws u rest] unit(1,2)
      by (simp add: integer_word_def list_all_iff)
    then show ?thesis
      using unit(4) by (simp add: parseRelativeAgeToTimestamp_def Let_def)
  qed
  then show ?thesis
    using parseIso_None [OF hint] by (simp add: toTimestamp_def)
qed

theorem toTimestamp_unparsable_witness:
  "toTimestamp Date_parse_example
     \<lparr>title = ''A story'', ageText = ''3 months ago'', ageISO = None\<rparr> 1736084700000 = NaN
   \<and> toTimestamp Date_parse_example
     \<lparr>title = ''A story'', ageText = [], ageISO = Some ''soon''\<rparr> 1736084700000 = NaN"
proof -
  let ?a = "\<lparr>title = ''A story'', ageText = ''3 months ago'', ageISO = None\<rparr>"
  let ?b = "\<lparr>title = ''A story'', ageText = [], ageISO = Some ''soon''\<rparr>"
  have shape: "ageText ?a = ''3'' @ '' '' @ ''months'' @ '' ago''"
    by simp
  have iw: "integer_word ''3'' '' '' ''months''"
    by code_simp
  have stop: "'' ago'' = [] \<or> \<not> is_word (hd '' ago'')"
    by code_simp
  have units: "\<forall>p\<in>set [''second'', ''minute'', ''hour'', ''day'']. \<not> prefix p (toLowerCase ''months'')"
    by code_simp
  have rel_a: "\<exists>ds ws u rest. ageText ?a = ds @ ws @ u @ rest \<and> integer_word ds ws u
      \<and> (rest = [] \<or> \<not> is_word (hd rest))
      \<and> (\<forall>p\<in>set [''second'', ''minute'', ''hour'', ''day'']. \<not> prefix p (toLowerCase u))"
    using shape iw stop units by blast
  have hint_a: "ageISO ?a = None \<or> ageISO ?a = Some []
      \<or> (\<exists>s. ageISO ?a = Some s \<and> Date_parse_example s = NaN)"
    by simp
  have hint_b: "ageISO ?b = None \<or> ageISO ?b = Some []
      \<or> (\<exists>s. ageISO ?b = Some s \<and> Date_parse_example s = NaN)"
    by (simp add: Date_parse_example_def)
  have rel_b: "ageText ?b = []"
    by simp
  show ?thesis
    using toTimestamp_unparsable [where a = ?a, OF hint_a disjI2 [OF disjI2 [OF rel_a]]]
      toTimestamp_unparsable [where a = ?b, OF hint_b disjI1 [OF rel_b]]
    by simp
qed

text \<open>
  Claim C2, as amended. An item whose absolute hint is present, non-empty and accepted by
  \<^verbatim>\<open>Date.parse\<close> gets the parsed value, whatever its age text and whatever the reference
  time are.
\<close>

theorem toTimestamp_absolute_hint_wins:
  assumes "ageISO a = Some s" and "s \<noteq> []" and "Date_parse s = Val t"
  shows "toTimestamp Date_parse a nowMs = Val t
    \<and> toTimestamp Date_parse (a\<lparr>ageText := other\<rparr>) nowMs' = Val t"
  using assms by (simp add: toTimestamp_def parseIsoTimestamp_def)

theorem toTimestamp_absolute_hint_wins_witness:
  "toTimestamp Date_parse_example
     \<lparr>title = ''A story'', ageText = ''5 minutes ago'',
      ageISO = Some ''2025-01-05T13:45:00.000Z''\<rparr> 1800000000000 = Val 1736084700000
   \<and> toTimestamp Date_parse_example
     \<lparr>title = ''A story'', ageText = ''2 hours ago'',
      ageISO = Some ''2025-01-05T13:45:00.000Z''\<rparr> 1900000000000 = Val 1736084700000"
proof -
  let ?a = "\<lparr>title = ''A story'', ageText = ''5 minutes ago'',
             ageISO = Some ''2025-01-05T13:45:00.000Z''\<rparr>"
  have 1: "ageISO ?a = Some ''2025-01-05T13:45:00.000Z''" by simp
  have 2: "''2025-01-05T13:45:00.000Z'' \<noteq> []" by simp
  have 3: "Date_parse_example ''2025-01-05T13:45:00.000Z'' = Val 1736084700000"
    by (simp add: Date_parse_example_def)
  show ?thesis
    using toTimestamp_absolute_hint_wins
      [where a = ?a and Date_parse = Date_parse_example and s = "''2025-01-05T13:45:00.000Z''"
         and nowMs = 1800000000000 and other = "''2 hours ago''" and nowMs' = 1900000000000,
       OF 1 2 3]
    by simp
qed

text \<open>
  Claim C2 as stated fails for a hint that is present but not a date: the program then
  falls back to the age text, and two items with the same hint get different timestamps.
\<close>

theorem toTimestamp_unparsable_hint_counterexample:
  "Date_parse_example ''not a date'' = NaN
   \<and> toTimestamp Date_parse_example
       \<lparr>title = ''A story'', ageText = ''5 minutes ago'', ageISO = Some ''not a date''\<rparr>
       1736084700000 = Val 1736084400000
   \<and> toTimestamp Date_parse_example
       \<lparr>title = ''A story'', ageText = ''2 hours ago'', ageISO = Some ''not a date''\<rparr>
       1736084700000 = Val 1736077500000"
  by code_simp

section \<open>Properties of the validation\<close>

lemma inversion_at_iff:
  "inversion_at ds k \<longleftrightarrow>
     Suc k < length ds \<and> \<not> isNaN (timestamp (ds ! k)) \<and> \<not> isNaN (timestamp (ds ! Suc k))
     \<and> num_lt (timestamp (ds ! k)) (timestamp (ds ! Suc k))"
  by (cases "timestamp (ds ! k)"; cases "timestamp (ds ! Suc k)") (auto simp: inversion_at_def)

lemma sorted_loop_step:
  assumes "0 < i" and "i < length ds" and "\<not> inversion_at ds (i - 1)"
  shows "sorted_loop ds i probs = sorted_loop ds (i + 1) probs"
proof -
  have "Suc (i - 1) = i" using assms(1) by simp
  then show ?thesis
    using assms inversion_at_iff [of ds "i - 1"]
    by (subst sorted_loop.simps) (auto simp: Let_def)
qed

lemma sorted_loop_hit:
  assumes "inversion_at ds k"
  shows "sorted_loop ds (Suc k) probs = probs @ [ordering_message (ds ! k) (ds ! Suc k)]"
  using assms inversion_at_iff [of ds k]
  by (subst sorted_loop.simps) (auto simp: Let_def)

lemma sorted_loop_end:
  "length ds \<le> i \<Longrightarrow> sorted_loop ds i probs = probs"
  by (subst sorted_loop.simps) simp

lemma sorted_loop_skip:
  assumes "0 < i" and "i \<le> m" and "m \<le> length ds"
    and "\<forall>j. i - 1 \<le> j \<and> j < m - 1 \<longrightarrow> \<not> inversion_at ds j"
  shows "sorted_loop ds i probs = sorted_loop ds m probs"
  using assms
proof (induction "m - i" arbitrary: i)
  case 0
  then show ?case by simp
next
  case (Suc d)
  then have lt: "i < m" by simp
  have "\<not> inversion_at ds (i - 1)"
    using Suc.prems lt by (intro Suc.prems(4)[rule_format]) auto
  then have "sorted_loop ds i probs = sorted_loop ds (i + 1) probs"
    using Suc.prems lt by (intro sorted_loop_step) auto
  also have "\<dots> = sorted_loop ds m probs"
    using Suc.hyps(2) Suc.prems lt by (intro Suc.hyps(1)) auto
  finally show ?case .
qed

lemma filter_upt_first:
  assumes "filter P [a..<b] = k # ks"
  shows "P k \<and> a \<le> k \<and> k < b \<and> (\<forall>j. a \<le> j \<and> j < k \<longrightarrow> \<not> P j)"
proof -
  from assms obtain us vs where split: "[a..<b] = us @ k # vs" and us: "\<forall>u\<in>set us. \<not> P u" and k: "P k"
    by (auto simp: filter_eq_Cons_iff)
  have mem: "k \<in> set [a..<b]" by (simp add: split)
  have "sorted ([a..<b])" by simp
  then have after: "\<forall>v\<in>set vs. k \<le> v"
    unfolding split by (simp add: sorted_append)
  have "\<not> P j" if "a \<le> j" "j < k" for j
  proof -
    have "j \<in> set [a..<b]" using that mem by auto
    then have "j \<in> set us" unfolding split using that(2) after by auto
    then show ?thesis using us by blast
  qed
  then show ?thesis using k mem by auto
qed

lemma filter_upt_Nil: "filter P [a..<b] = [] \<Longrightarrow> a \<le> j \<Longrightarrow> j < b \<Longrightarrow> \<not> P j"
  by (auto simp: filter_empty_conv)

lemma sorted_loop_inversions:
  "sorted_loop ds 1 probs =
     (case inversions ds of
        [] \<Rightarrow> probs
      | k # ks \<Rightarrow> probs @ [ordering_message (ds ! k) (ds ! Suc k)])"
proof (cases "inversions ds")
  case Nil
  have none: "\<not> inversion_at ds j" for j
  proof (cases "j < length ds - 1")
    case True
    then show ?thesis using filter_upt_Nil [OF Nil [unfolded inversions_def], of j] by simp
  next
    case False
    then show ?thesis by (auto simp: inversion_at_def)
  qed
  have "sorted_loop ds 1 probs = probs"
  proof (cases "length ds = 0")
    case True
    then show ?thesis by (simp add: sorted_loop_end)
  next
    case False
    then have "sorted_loop ds 1 probs = sorted_loop ds (length ds) probs"
      using none by (intro sorted_loop_skip) (auto simp: Suc_le_eq)
    then show ?thesis by (simp add: sorted_loop_end)
  qed
  then show ?thesis by (simp add: Nil)
next
  case (Cons k ks)
  from filter_upt_first [OF Cons [unfolded inversions_def]]
  have k: "inversion_at ds k" and first: "\<forall>j. j < k \<longrightarrow> \<not> inversion_at ds j" by auto
  have "Suc k < length ds" using k by (simp add: inversion_at_def)
  then have "sorted_loop ds 1 probs = sorted_loop ds (Suc k) probs"
    using first by (intro sorted_loop_skip) auto
  then show ?thesis by (simp add: Cons sorted_loop_hit [OF k])
qed

lemma sorted_loop_first:
  assumes "inversion_at ds k" and "\<forall>j. j < k \<longrightarrow> \<not> inversion_at ds j"
  shows "sorted_loop ds 1 probs = probs @ [ordering_message (ds ! k) (ds ! Suc k)]"
proof -
  have "Suc k < length ds" using assms(1) by (simp add: inversion_at_def)
  then have "sorted_loop ds 1 probs = sorted_loop ds (Suc k) probs"
    using assms(2) by (intro sorted_loop_skip) auto
  then show ?thesis by (simp add: sorted_loop_hit [OF assms(1)])
qed

lemma inversions_single:
  assumes "inversions ds = [k]"
  shows "inversion_at ds k" and "\<forall>j. j < k \<longrightarrow> \<not> inversion_at ds j"
  using filter_upt_first [OF assms [unfolded inversions_def]] by auto

lemma inversion_at_prefix:
  assumes "Suc j < m" and "m \<le> length ds"
  shows "inversion_at (take m ds @ later) j = inversion_at ds j"
  using assms by (simp add: inversion_at_def nth_append)

lemma parsable_loop_eq:
  "parsable_loop ds probs = probs @ map unparsable_message (filter (\<lambda>d. isNaN (timestamp d)) ds)"
  by (induction ds arbitrary: probs) simp_all

lemma checkTimestampsParsable_eq:
  "checkTimestampsParsable ds =
     \<lparr>ok = (filter (\<lambda>d. isNaN (timestamp d)) ds = []),
      problems = map unparsable_message (filter (\<lambda>d. isNaN (timestamp d)) ds)\<rparr>"
  by (simp add: checkTimestampsParsable_def parsable_loop_eq)

lemma checkSorted_eq:
  "checkSortedNewestToOldest ds =
     \<lparr>ok = (inversions ds = []),
      problems = (case inversions ds of
                    [] \<Rightarrow> []
                  | k # ks \<Rightarrow> [ordering_message (ds ! k) (ds ! Suc k)])\<rparr>"
  unfolding checkSortedNewestToOldest_def sorted_loop_inversions
  by (simp split: list.splits)

lemma length_enrich [simp]:
  "length (enrichArticlesWithTimestamps Date_parse articles nowMs) = length articles"
  by (simp add: enrichArticlesWithTimestamps_def)

lemma enrich_nth:
  assumes "k < length articles"
  shows "enrichArticlesWithTimestamps Date_parse articles nowMs ! k =
           \<lparr>title = title (articles ! k), ageText = ageText (articles ! k),
            ageISO = ageISO (articles ! k), index = k + 1,
            timestamp = toTimestamp Date_parse (articles ! k) nowMs\<rparr>"
  using assms by (simp add: enrichArticlesWithTimestamps_def nth_enumerate_eq)

text \<open>
  Claim C3. When the enriched rows contain exactly one adjacent inversion, at \<open>k\<close> (rows
  number \<open>k + 1\<close> and \<open>k + 2\<close> counted from 1), the ordering check reports exactly one
  problem and fails; the problem names the two numbers, both titles and both age texts;
  the validator lists it after the parseability problems; and the rows after the
  inversion are not looked at: any other rows in their place give the same result. Rows
  without an instant before the inversion do not stop the scan, since an inversion needs
  two instants.
\<close>

theorem checkSorted_single_inversion:
  assumes ds: "ds = enrichArticlesWithTimestamps Date_parse articles nowMs"
    and one: "inversions ds = [k]"
  shows "check_result.problems (checkSortedNewestToOldest ds) =
           [''Ordering issue between #'' @ show_nat (k + 1) @ '' and #'' @ show_nat (k + 2)
              @ '': \"'' @ title (articles ! k) @ ''\" ('' @ ageText (articles ! k)
              @ '') appears before \"'' @ title (articles ! Suc k) @ ''\" (''
              @ ageText (articles ! Suc k) @ ''), but has an *older* timestamp.'']
     \<and> \<not> ok (checkSortedNewestToOldest ds)
     \<and> problems (validateArticles Date_parse articles nowMs) =
         check_result.problems (checkTimestampsParsable ds)
           @ check_result.problems (checkSortedNewestToOldest ds)
     \<and> checkSortedNewestToOldest (take (k + 2) ds @ later) = checkSortedNewestToOldest ds"
proof -
  note inv = inversions_single [OF one]
  have len: "Suc k < length articles"
    using inv(1) by (simp add: inversion_at_def ds)
  have msg: "ordering_message (ds ! k) (ds ! Suc k) =
      ''Ordering issue between #'' @ show_nat (k + 1) @ '' and #'' @ show_nat (k + 2)
        @ '': \"'' @ title (articles ! k) @ ''\" ('' @ ageText (articles ! k)
        @ '') appears before \"'' @ title (articles ! Suc k) @ ''\" (''
        @ ageText (articles ! Suc k) @ ''), but has an *older* timestamp.''"
    using len by (simp add: ds enrich_nth ordering_message_def)
  have loop: "sorted_loop ds 1 [] = [ordering_message (ds ! k) (ds ! Suc k)]"
    using sorted_loop_first [OF inv, of "[]"] by simp
  let ?ds' = "take (k + 2) ds @ later"
  have lds: "k + 2 \<le> length ds" using len by (simp add: ds)
  have "inversion_at ?ds' k"
    using inversion_at_prefix [OF _ lds, of k later] inv(1) by simp
  moreover have "\<forall>j. j < k \<longrightarrow> \<not> inversion_at ?ds' j"
    using inversion_at_prefix [OF _ lds, of _ later] inv(2) by simp
  ultimately have "sorted_loop ?ds' 1 [] = [ordering_message (?ds' ! k) (?ds' ! Suc k)]"
    using sorted_loop_first [of ?ds' k "[]"] by simp
  also have "\<dots> = [ordering_message (ds ! k) (ds ! Suc k)]"
    using lds by (simp add: nth_append)
  finally have loop': "sorted_loop ?ds' 1 [] = sorted_loop ds 1 []"
    using loop by simp
  have 1: "check_result.problems (checkSortedNewestToOldest ds) = [ordering_message (ds ! k) (ds ! Suc k)]"
    and 2: "\<not> ok (checkSortedNewestToOldest ds)"
    unfolding checkSortedNewestToOldest_def loop by simp_all
  have 3: "problems (validateArticles Date_parse articles nowMs) =
         check_result.problems (checkTimestampsParsable ds)
           @ check_result.problems (checkSortedNewestToOldest ds)"
    by (simp add: validateArticles_def Let_def ds)
  have 4: "checkSortedNewestToOldest ?ds' = checkSortedNewestToOldest ds"
    unfolding checkSortedNewestToOldest_def loop' by simp
  show ?thesis
    using 1 2 3 4 unfolding msg by blast
qed

theorem checkSorted_single_inversion_witness:
  "inversions (enrichArticlesWithTimestamps Date_parse_example articles_inverted 1736084820000) = [2]
   \<and> check_result.problems
       (checkSortedNewestToOldest
          (enrichArticlesWithTimestamps Date_parse_example articles_inverted 1736084820000)) =
     [''Ordering issue between #3 and #4: \"C\" (5 minutes ago) appears before \"D\" (3 minutes ago), but has an *older* timestamp.'']"
proof -
  let ?ds = "enrichArticlesWithTimestamps Date_parse_example articles_inverted 1736084820000"
  have one: "inversions ?ds = [2]"
    by code_simp
  have n: "show_nat (2 + 1) = ''3''" "show_nat (2 + 2) = ''4''"
    by code_simp+
  have a: "articles_inverted ! 2 = \<lparr>title = ''C'', ageText = ''5 minutes ago'', ageISO = None\<rparr>"
    "articles_inverted ! Suc 2 = \<lparr>title = ''D'', ageText = ''3 minutes ago'', ageISO = Some ''not a date''\<rparr>"
    by (simp_all add: articles_inverted_def)
  show ?thesis
    using checkSorted_single_inversion [OF refl one, of "[]"] one
    unfolding n a by simp
qed

text \<open>
  Claim C4. The validator runs both checks on the same enriched rows: the parseability
  check reports every row without an instant, whatever the order is; the ordering check
  reports the first adjacent inversion, if there is one, whatever the parseability check
  found; the problem list is the first list followed by the second; and the validator
  passes exactly when both lists are empty.
\<close>

theorem validateArticles_both_checks:
  "(let ds = enrichArticlesWithTimestamps Date_parse articles nowMs;
        parseProblems = check_result.problems (checkTimestampsParsable ds);
        sortProblems = check_result.problems (checkSortedNewestToOldest ds);
        result = validateArticles Date_parse articles nowMs
    in details result = ds
       \<and> parseProblems = map unparsable_message (filter (\<lambda>d. isNaN (timestamp d)) ds)
       \<and> sortProblems = (case inversions ds of
                           [] \<Rightarrow> []
                         | k # ks \<Rightarrow> [ordering_message (ds ! k) (ds ! Suc k)])
       \<and> problems result = parseProblems @ sortProblems
       \<and> isSorted result = (parseProblems = [] \<and> sortProblems = []))"
  by (simp add: validateArticles_def Let_def checkTimestampsParsable_eq checkSorted_eq
      split: list.splits)

theorem validateArticles_both_checks_witness:
  "problems (validateArticles Date_parse_example articles_inverted 1736084820000) =
     [''Unparsable timestamp for article #2: \"B\" (soon, ISO: none)'',
      ''Ordering issue between #3 and #4: \"C\" (5 minutes ago) appears before \"D\" (3 minutes ago), but has an *older* timestamp.'']
   \<and> \<not> isSorted (validateArticles Date_parse_example articles_inverted 1736084820000)"
proof -
  let ?ds = "enrichArticlesWithTimestamps Date_parse_example articles_inverted 1736084820000"
  have p: "map unparsable_message (filter (\<lambda>d. isNaN (timestamp d)) ?ds) =
      [''Unparsable timestamp for article #2: \"B\" (soon, ISO: none)'']"
    by code_simp
  have s: "(case inversions ?ds of
              [] \<Rightarrow> []
            | k # ks \<Rightarrow> [ordering_message (?ds ! k) (?ds ! Suc k)]) =
      [''Ordering issue between #3 and #4: \"C\" (5 minutes ago) appears before \"D\" (3 minutes ago), but has an *older* timestamp.'']"
    by code_simp
  show ?thesis
    using validateArticles_both_checks [of Date_parse_example articles_inverted 1736084820000]
    unfolding Let_def p s by simp
qed

text \<open>
  Claim C5. When every enriched row has an instant and no instant is larger than the one
  before it (equal neighbours allowed), the validator passes and reports no problem.
\<close>

theorem validateArticles_sorted_passes:
  assumes ts: "map timestamp (enrichArticlesWithTimestamps Date_parse articles nowMs) = map Val ts"
    and mono: "\<forall>i. Suc i < length ts \<longrightarrow> ts ! Suc i \<le> ts ! i"
  shows "isSorted (validateArticles Date_parse articles nowMs)
     \<and> problems (validateArticles Date_parse articles nowMs) = []"
proof -
  let ?ds = "enrichArticlesWithTimestamps Date_parse articles nowMs"
  have len: "length ts = length ?ds"
    using arg_cong [OF ts, of length] by simp
  have nth: "timestamp (?ds ! i) = Val (ts ! i)" if "i < length ?ds" for i
    using arg_cong [OF ts, of "\<lambda>xs. xs ! i"] that len by simp
  have "\<not> isNaN (timestamp d)" if "d \<in> set ?ds" for d
  proof -
    from that obtain i where "i < length ?ds" "d = ?ds ! i"
      by (auto simp: in_set_conv_nth)
    then show ?thesis using nth by simp
  qed
  then have parse: "filter (\<lambda>d. isNaN (timestamp d)) ?ds = []"
    by (simp add: filter_empty_conv)
  have "\<not> inversion_at ?ds j" for j
  proof
    assume a: "inversion_at ?ds j"
    then have j: "Suc j < length ?ds" by (simp add: inversion_at_def)
    then have "ts ! j < ts ! Suc j"
      using a nth [of j] nth [of "Suc j"] by (simp add: inversion_at_def)
    moreover have "ts ! Suc j \<le> ts ! j"
      using mono j len by simp
    ultimately show False by simp
  qed
  then have sort: "inversions ?ds = []"
    by (simp add: inversions_def)
  show ?thesis
    by (simp add: validateArticles_def Let_def checkTimestampsParsable_eq checkSorted_eq parse sort)
qed

theorem validateArticles_sorted_passes_witness:
  "isSorted (validateArticles Date_parse_example articles_sorted 1736084820000)
   \<and> problems (validateArticles Date_parse_example articles_sorted 1736084820000) = []"
proof -
  have ts: "map timestamp (enrichArticlesWithTimestamps Date_parse_example articles_sorted 1736084820000)
      = map Val [1736084760000, 1736084760000, 1736084700000, 1736084520000]"
    by code_simp
  have mono: "\<forall>i. Suc i < length [1736084760000, 1736084760000, 1736084700000, 1736084520000 :: int]
      \<longrightarrow> [1736084760000, 1736084760000, 1736084700000, 1736084520000 :: int] ! Suc i
        \<le> [1736084760000, 1736084760000, 1736084700000, 1736084520000] ! i"
    by (auto simp: less_Suc_eq nth_Cons')
  show ?thesis
    using validateArticles_sorted_passes [OF ts mono] .
qed

section \<open>Properties of the collection\<close>

lemma withRetry_loop_failure:
  assumes "i \<le> attempts" and "fn w = (Inl err, w1)"
  shows "withRetry_loop pg fn attempts delayMs label i lastError w =
     withRetry_loop pg fn attempts delayMs label (i + 1) (Some err)
       (if i < attempts then sleep pg delayMs w1 else w1)"
  using assms by (subst withRetry_loop.simps) simp

lemma withRetry_loop_exhausted:
  assumes "attempts < i"
  shows "withRetry_loop pg fn attempts delayMs label i lastError w =
     (Inl (RetryFailed label attempts lastError), w)"
  using assms by (subst withRetry_loop.simps) simp

lemma withRetry_two_failures:
  assumes "fn w1 = (Inl e1, w2)" and "fn (sleep pg delayMs w2) = (Inl e2, w3)"
  shows "withRetry pg fn 2 delayMs label w1 = (Inl (RetryFailed label 2 (Some e2)), w3)"
proof -
  have "withRetry pg fn 2 delayMs label w1
      = withRetry_loop pg fn 2 delayMs label (1 + 1) (Some e1) (sleep pg delayMs w2)"
    unfolding withRetry_def using withRetry_loop_failure [of 1 2 fn w1 e1 w2] assms(1) by simp
  also have "\<dots> = withRetry_loop pg fn 2 delayMs label (1 + 1 + 1) (Some e2) w3"
    using withRetry_loop_failure [of "1 + 1" 2 fn "sleep pg delayMs w2" e2 w3] assms(2) by simp
  also have "\<dots> = (Inl (RetryFailed label 2 (Some e2)), w3)"
    by (rule withRetry_loop_exhausted) simp
  finally show ?thesis .
qed

lemma scrape_no_throw:
  assumes "\<forall>w. \<exists>rows w'. evalRows pg w = (Inr rows, w')"
  shows "\<exists>rows w'. scrapeArticlesOnPage pg w = (Inr rows, w')"
proof (cases "waitForSelector pg w")
  case (Pair r w1)
  show ?thesis
  proof (cases r)
    case (Inl err)
    then show ?thesis by (simp add: scrapeArticlesOnPage_def Pair)
  next
    case (Inr u)
    then show ?thesis using assms by (simp add: scrapeArticlesOnPage_def Pair)
  qed
qed

lemma collect_loop_no_throw:
  assumes ev: "\<forall>w. \<exists>rows w'. evalRows pg w = (Inr rows, w')"
  shows "\<exists>c w'. collect_loop pg n collected pagesVisited w = (Inr c, w')"
  using ev
proof (induction pg n collected pagesVisited w rule: collect_loop.induct)
  case (1 pg n collected pagesVisited w)
  note ev = "1.prems"
  show ?case
  proof (cases "length collected < n \<and> pagesVisited + 1 \<le> MAX_PAGES_TO_VISIT")
    case False
    then show ?thesis
      by (subst collect_loop.simps) (auto simp: Let_def)
  next
    case True
    from scrape_no_throw [OF ev] obtain rows w1
      where sc: "scrapeArticlesOnPage pg w = (Inr rows, w1)" by blast
    show ?thesis
    proof (cases "rows = [] \<or> n \<le> length (collected @ rows)")
      case stop: True
      then show ?thesis
        using True sc by (subst collect_loop.simps) (auto simp: Let_def)
    next
      case go: False
      obtain r w2 where nav: "withRetry pg (navigateToNextPage pg) 2 2000 ''pagination navigation'' w1 = (r, w2)"
        by (cases "withRetry pg (navigateToNextPage pg) 2 2000 ''pagination navigation'' w1")
      show ?thesis
      proof (cases r)
        case (Inl err)
        then show ?thesis
          using True sc go nav by (subst collect_loop.simps) (auto simp: Let_def)
      next
        case (Inr u)
        have "\<exists>c w'. collect_loop pg n (collected @ rows) (pagesVisited + 1) w2 = (Inr c, w')"
          using True sc go nav Inr ev
          by (intro "1.IH" [of "pagesVisited + 1" "Inr rows" w1 rows "collected @ rows" r w2 u]) auto
        then show ?thesis
          using True sc go nav Inr by (subst collect_loop.simps) (auto simp: Let_def)
      qed
    qed
  qed
qed

lemma collect_loop_empty_page:
  assumes "length collected < n" and "pagesVisited < MAX_PAGES_TO_VISIT"
    and "scrapeArticlesOnPage pg w = (Inr [], w1)"
  shows "collect_loop pg n collected pagesVisited w = (Inr collected, w1)"
  using assms by (subst collect_loop.simps) (simp add: Let_def)

lemma collect_loop_navigation_fails:
  assumes "length collected < n" and "pagesVisited < MAX_PAGES_TO_VISIT"
    and "scrapeArticlesOnPage pg w = (Inr rows, w1)"
    and "rows \<noteq> []" and "length (collected @ rows) < n"
    and "withRetry pg (navigateToNextPage pg) 2 2000 ''pagination navigation'' w1 = (Inl err, w3)"
  shows "collect_loop pg n collected pagesVisited w = (Inr (collected @ rows), w3)"
  using assms by (subst collect_loop.simps) (simp add: Let_def)

text \<open>
  Claim C6. A list returned by \<open>getFirstNArticles\<close> never has more than \<open>n\<close> rows. When
  the evaluation of the rows never throws, the collector does return a list: the array
  accumulated by the loop cut to its first \<open>n\<close> rows, which are exactly \<open>n\<close> rows when at
  least \<open>n\<close> were gathered and the whole array when fewer were gathered.
\<close>

theorem getFirstNArticles_at_most_n:
  "(\<forall>items w'. getFirstNArticles pg n w = (Inr items, w') \<longrightarrow> length items \<le> n)
   \<and> ((\<forall>w. \<exists>rows w'. evalRows pg w = (Inr rows, w')) \<longrightarrow>
        (\<exists>collected w'. collect_loop pg n [] 0 w = (Inr collected, w')
           \<and> getFirstNArticles pg n w = (Inr (take n collected), w')
           \<and> (n \<le> length collected \<longrightarrow> length (take n collected) = n)
           \<and> (length collected < n \<longrightarrow> take n collected = collected)))"
proof (intro conjI allI impI)
  fix items w'
  assume "getFirstNArticles pg n w = (Inr items, w')"
  then show "length items \<le> n"
    by (auto simp: getFirstNArticles_def split: prod.splits sum.splits)
next
  assume "\<forall>w. \<exists>rows w'. evalRows pg w = (Inr rows, w')"
  from collect_loop_no_throw [OF this, of n "[]" 0 w] obtain collected w'
    where c: "collect_loop pg n [] 0 w = (Inr collected, w')" by blast
  then have "getFirstNArticles pg n w = (Inr (take n collected), w')"
    by (simp add: getFirstNArticles_def)
  with c show "\<exists>collected w'. collect_loop pg n [] 0 w = (Inr collected, w')
           \<and> getFirstNArticles pg n w = (Inr (take n collected), w')
           \<and> (n \<le> length collected \<longrightarrow> length (take n collected) = n)
           \<and> (length collected < n \<longrightarrow> take n collected = collected)"
    by auto
qed

theorem getFirstNArticles_at_most_n_witness:
  "getFirstNArticles page_example 10 0 = (Inr (replicate 10 (hd rows_example)), 2)
   \<and> (\<exists>collected. collect_loop page_example 10 [] 0 0 = (Inr collected, 2) \<and> length collected = 12)
   \<and> getFirstNArticles page_example 20 0 = (Inr (replicate 12 (hd rows_example)), 3)"
proof -
  have ev: "\<forall>w. \<exists>rows w'. evalRows page_example w = (Inr rows, w')"
    by (simp add: page_example_def)
  have run10: "collect_loop page_example 10 [] 0 0 = (Inr (replicate 12 (hd rows_example)), 2)"
    by code_simp
  have run20: "collect_loop page_example 20 [] 0 0 = (Inr (replicate 12 (hd rows_example)), 3)"
    by code_simp
  have "getFirstNArticles page_example 10 0 = (Inr (take 10 (replicate 12 (hd rows_example))), 2)"
    using getFirstNArticles_at_most_n [of page_example 10 0] ev run10 by auto
  moreover have "getFirstNArticles page_example 20 0 = (Inr (take 20 (replicate 12 (hd rows_example))), 3)"
    using getFirstNArticles_at_most_n [of page_example 20 0] ev run20 by auto
  ultimately show ?thesis
    using run10 by simp
qed

text \<open>
  Claim C7. Take any state of the loop that the collector reaches with fewer than \<open>n\<close> rows
  and pages left to visit, and let the scrape of the page succeed. If the page has no row,
  the collector returns the rows accumulated so far. If the page has rows, the target is
  still not reached, and \<open>navigateToNextPage\<close> throws on the first attempt and, after the
  wait of 2000 ms, on the second, then \<open>withRetry\<close> gives up after these two attempts and
  the collector returns the rows accumulated so far, this page included; it does not throw.
\<close>

theorem getFirstNArticles_stops_gracefully:
  assumes reach: "collect_loop pg n [] 0 w0 = collect_loop pg n collected pagesVisited w"
    and more: "length collected < n"
    and pages: "pagesVisited < MAX_PAGES_TO_VISIT"
    and scrape: "scrapeArticlesOnPage pg w = (Inr rows, w1)"
  shows "(rows = [] \<longrightarrow> getFirstNArticles pg n w0 = (Inr collected, w1))
     \<and> (rows \<noteq> [] \<and> length (collected @ rows) < n
          \<and> navigateToNextPage pg w1 = (Inl e1, w2)
          \<and> navigateToNextPage pg (sleep pg 2000 w2) = (Inl e2, w3)
        \<longrightarrow> withRetry pg (navigateToNextPage pg) 2 2000 ''pagination navigation'' w1
              = (Inl (RetryFailed ''pagination navigation'' 2 (Some e2)), w3)
           \<and> getFirstNArticles pg n w0 = (Inr (collected @ rows), w3))"
proof (intro conjI impI)
  assume "rows = []"
  then have "collect_loop pg n [] 0 w0 = (Inr collected, w1)"
    using collect_loop_empty_page [OF more pages] scrape reach by simp
  then show "getFirstNArticles pg n w0 = (Inr collected, w1)"
    using more by (simp add: getFirstNArticles_def)
next
  assume a: "rows \<noteq> [] \<and> length (collected @ rows) < n
          \<and> navigateToNextPage pg w1 = (Inl e1, w2)
          \<and> navigateToNextPage pg (sleep pg 2000 w2) = (Inl e2, w3)"
  then have retry: "withRetry pg (navigateToNextPage pg) 2 2000 ''pagination navigation'' w1
      = (Inl (RetryFailed ''pagination navigation'' 2 (Some e2)), w3)"
    by (intro withRetry_two_failures) auto
  then show "withRetry pg (navigateToNextPage pg) 2 2000 ''pagination navigation'' w1
      = (Inl (RetryFailed ''pagination navigation'' 2 (Some e2)), w3)" .
  have "collect_loop pg n [] 0 w0 = (Inr (collected @ rows), w3)"
    using collect_loop_navigation_fails [OF more pages scrape _ _ retry] a reach by simp
  moreover have "take n (collected @ rows) = collected @ rows"
    using a by (intro take_all) simp
  ultimately show "getFirstNArticles pg n w0 = (Inr (collected @ rows), w3)"
    by (simp add: getFirstNArticles_def del: take_append)
qed

theorem getFirstNArticles_stops_gracefully_witness:
  "getFirstNArticles page_broken 20 0 = (Inr (rows_example @ rows_example), 1)
   \<and> getFirstNArticles page_example 20 0 = (Inr (rows_example @ rows_example @ rows_example), 3)"
proof -
  have reach1: "collect_loop page_broken 20 [] 0 0 = collect_loop page_broken 20 rows_example 1 1"
    by code_simp
  have more1: "length rows_example < 20" by code_simp
  have pages1: "1 < MAX_PAGES_TO_VISIT" by code_simp
  have scrape1: "scrapeArticlesOnPage page_broken 1 = (Inr rows_example, 1)" by code_simp
  have nav: "navigateToNextPage page_broken 1
      = (Inl (Error ''Could not find \"More\" link for pagination.''), 1)"
    by code_simp
  have nav': "navigateToNextPage page_broken (sleep page_broken 2000 1)
      = (Inl (Error ''Could not find \"More\" link for pagination.''), 1)"
    by code_simp
  have ne: "rows_example \<noteq> []" "length (rows_example @ rows_example) < 20" by code_simp+
  have 1: "getFirstNArticles page_broken 20 0 = (Inr (rows_example @ rows_example), 1)"
    using getFirstNArticles_stops_gracefully [OF reach1 more1 pages1 scrape1] ne nav nav' by blast
  have reach2: "collect_loop page_example 20 [] 0 0
      = collect_loop page_example 20 (rows_example @ rows_example @ rows_example) 3 3"
    by code_simp
  have more2: "length (rows_example @ rows_example @ rows_example) < 20" by code_simp
  have pages2: "3 < MAX_PAGES_TO_VISIT" by code_simp
  have scrape2: "scrapeArticlesOnPage page_example 3 = (Inr [], 3)" by code_simp
  have 2: "getFirstNArticles page_example 20 0
      = (Inr (rows_example @ rows_example @ rows_example), 3)"
    using getFirstNArticles_stops_gracefully [OF reach2 more2 pages2 scrape2] by blast
  show ?thesis using 1 2 by simp
qed

section \<open>Properties of the report\<close>

lemma parsable_timestamps_filter:
  "map Val (parsable_timestamps ds) = filter (\<lambda>t. \<not> isNaN t) (map timestamp ds)"
proof (induction ds)
  case Nil
  then show ?case by (simp add: parsable_timestamps_def)
next
  case (Cons d ds)
  then show ?case by (cases "timestamp d") (simp_all add: parsable_timestamps_def)
qed

lemma set_parsable_timestamps: "set (parsable_timestamps ds) = instants ds"
  by (auto simp: parsable_timestamps_def instants_def split: number.splits)

lemma parsable_timestamps_Nil_iff:
  "parsable_timestamps ds = [] \<longleftrightarrow> (\<forall>d\<in>set ds. isNaN (timestamp d))"
proof -
  have "parsable_timestamps ds = [] \<longleftrightarrow> instants ds = {}"
    using set_parsable_timestamps [of ds] by (metis set_empty)
  also have "\<dots> \<longleftrightarrow> (\<forall>d\<in>set ds. isNaN (timestamp d))"
  proof
    assume e: "instants ds = {}"
    show "\<forall>d\<in>set ds. isNaN (timestamp d)"
    proof
      fix d assume "d \<in> set ds"
      then show "isNaN (timestamp d)"
        using e by (cases "timestamp d") (auto simp: instants_def)
    qed
  next
    assume "\<forall>d\<in>set ds. isNaN (timestamp d)"
    then show "instants ds = {}" by (auto simp: instants_def)
  qed
  finally show ?thesis .
qed

lemma compute_stats_none:
  assumes "\<forall>d\<in>set ds. isNaN (timestamp d)"
  shows "compute_stats h ds = Inr None"
  using assms parsable_timestamps_Nil_iff [of ds] by (simp add: compute_stats_def)

lemma compute_stats_some:
  assumes "\<exists>d\<in>set ds. \<not> isNaN (timestamp d)"
    and "toISOString h (Min (instants ds)) = Inr oldest"
    and "toISOString h (Max (instants ds)) = Inr newest"
  shows "compute_stats h ds =
     Inr (Some \<lparr>oldestTimestamp = oldest, newestTimestamp = newest,
                timeSpanHours = toFixed2 h (Max (instants ds) - Min (instants ds)) 3600000,
                unparsableCount = length (filter (\<lambda>d. isNaN (timestamp d)) ds)\<rparr>)"
proof -
  have "parsable_timestamps ds \<noteq> []"
    using assms(1) parsable_timestamps_Nil_iff [of ds] by blast
  then show ?thesis
    using assms(2,3)
    by (simp add: compute_stats_def Let_def Math_min_def Math_max_def set_parsable_timestamps
        and_then_def)
qed

text \<open>
  Claim C9. Let the host render the start and the end of the run. When no row of the
  validated list has an instant (the empty list included), the report is built and its
  \<open>statistics\<close> is \<^verbatim>\<open>null\<close>. When some row has an instant and the host renders the
  smallest and the largest instant, the report is built and its \<open>statistics\<close> holds the
  largest instant as newest, the smallest as oldest, their difference divided by the 3600000
  milliseconds of an hour as span, and the number of rows without an instant.
\<close>

theorem buildResultObject_statistics:
  assumes "toISOString h startedAt' = Inr started" and "toISOString h finishedAt' = Inr finished"
  shows "((\<forall>d\<in>set (details v). isNaN (timestamp d)) \<longrightarrow>
           (\<exists>r. buildResultObject h articles v startedAt' finishedAt' = Inr r
              \<and> statistics r = None))
     \<and> ((\<exists>d\<in>set (details v). \<not> isNaN (timestamp d))
          \<and> toISOString h (Min (instants (details v))) = Inr oldest
          \<and> toISOString h (Max (instants (details v))) = Inr newest \<longrightarrow>
           (\<exists>r. buildResultObject h articles v startedAt' finishedAt' = Inr r
              \<and> statistics r =
                  Some \<lparr>oldestTimestamp = oldest, newestTimestamp = newest,
                        timeSpanHours =
                          toFixed2 h (Max (instants (details v)) - Min (instants (details v))) 3600000,
                        unparsableCount =
                          length (filter (\<lambda>d. isNaN (timestamp d)) (details v))\<rparr>))"
proof (intro conjI impI)
  assume "\<forall>d\<in>set (details v). isNaN (timestamp d)"
  from compute_stats_none [OF this, of h]
  show "\<exists>r. buildResultObject h articles v startedAt' finishedAt' = Inr r \<and> statistics r = None"
    using assms by (simp add: buildResultObject_def and_then_def)
next
  assume "(\<exists>d\<in>set (details v). \<not> isNaN (timestamp d))
          \<and> toISOString h (Min (instants (details v))) = Inr oldest
          \<and> toISOString h (Max (instants (details v))) = Inr newest"
  then have "compute_stats h (details v) =
     Inr (Some \<lparr>oldestTimestamp = oldest, newestTimestamp = newest,
                timeSpanHours = toFixed2 h (Max (instants (details v)) - Min (instants (details v))) 3600000,
                unparsableCount = length (filter (\<lambda>d. isNaN (timestamp d)) (details v))\<rparr>)"
    by (intro compute_stats_some) auto
  then show "\<exists>r. buildResultObject h articles v startedAt' finishedAt' = Inr r
              \<and> statistics r =
                  Some \<lparr>oldestTimestamp = oldest, newestTimestamp = newest,
                        timeSpanHours =
                          toFixed2 h (Max (instants (details v)) - Min (instants (details v))) 3600000,
                        unparsableCount =
                          length (filter (\<lambda>d. isNaN (timestamp d)) (details v))\<rparr>"
    using assms by (simp add: buildResultObject_def and_then_def)
qed


theorem buildResultObject_statistics_witness:
  "(\<exists>r. buildResultObject host_example articles_inverted
           (validateArticles Date_parse_example articles_inverted 1736084820000)
           1736084800000 1736084820500 = Inr r
       \<and> statistics r =
           Some \<lparr>oldestTimestamp = ''2025-01-05T13:37:00.000Z'',
                 newestTimestamp = ''2025-01-05T13:46:00.000Z'',
                 timeSpanHours = ''0.15'', unparsableCount = 1\<rparr>)
   \<and> (\<exists>r. buildResultObject host_example []
           \<lparr>isSorted = False, details = [], problems = []\<rparr>
           1736084800000 1736084820500 = Inr r
       \<and> statistics r = None)"
proof -
  let ?v = "validateArticles Date_parse_example articles_inverted 1736084820000"
  let ?e = "\<lparr>isSorted = False, details = [], problems = []\<rparr>"
  have started: "toISOString host_example 1736084800000 = Inr ''2025-01-05T13:46:40.000Z''"
    and finished: "toISOString host_example 1736084820500 = Inr ''2025-01-05T13:47:00.500Z''"
    by (simp_all add: host_example_def)
  have some: "\<exists>d\<in>set (details ?v). \<not> isNaN (timestamp d)"
    by code_simp
  have mn: "Min (instants (details ?v)) = 1736084220000"
    and mx: "Max (instants (details ?v)) = 1736084760000"
    unfolding set_parsable_timestamps [symmetric] by code_simp+
  have oldest: "toISOString host_example (Min (instants (details ?v))) = Inr ''2025-01-05T13:37:00.000Z''"
    and newest: "toISOString host_example (Max (instants (details ?v))) = Inr ''2025-01-05T13:46:00.000Z''"
    unfolding mn mx by (simp_all add: host_example_def)
  have span: "toFixed2 host_example (Max (instants (details ?v)) - Min (instants (details ?v))) 3600000 = ''0.15''"
    unfolding mn mx by (simp add: host_example_def)
  have count: "length (filter (\<lambda>d. isNaN (timestamp d)) (details ?v)) = 1"
    by code_simp
  have none: "\<forall>d\<in>set (details ?e). isNaN (timestamp d)"
    by simp
  show ?thesis
    using buildResultObject_statistics
        [OF started finished, where v = ?v and articles = articles_inverted
           and oldest = "''2025-01-05T13:37:00.000Z''" and newest = "''2025-01-05T13:46:00.000Z''"]
      buildResultObject_statistics [OF started finished, where v = ?e and articles = "[]"]
      some oldest newest none
    unfolding span count by blast
qed

lemma sample_last3_length:
  "length (sample_last3 articles) = min 3 (length articles)"
  by (auto simp: sample_last3_def)

lemma sample_first5_nth:
  assumes "i < length articles" and "i < 5"
  shows "sample_first5 articles ! i =
     \<lparr>position = int i + 1, title = title (articles ! i), age = ageText (articles ! i)\<rparr>"
  using assms by (simp add: sample_first5_def nth_enumerate_eq)

lemma sample_last3_nth:
  assumes "3 \<le> length articles" and "i < 3"
  shows "sample_last3 articles ! i =
     \<lparr>position = int (length articles - 3 + i) + 1,
      title = title (articles ! (length articles - 3 + i)),
      age = ageText (articles ! (length articles - 3 + i))\<rparr>"
  using assms by (simp add: sample_last3_def nth_enumerate_eq of_nat_diff)

lemma buildResultObject_last3:
  "buildResultObject h articles v startedAt' finishedAt' = Inr r \<Longrightarrow>
     last3 (sampleArticles r) = sample_last3 articles"
  by (auto simp: buildResultObject_def and_then_def split: sum.splits)

text \<open>
  Claim C10 does not hold for a list of one or two rows: \<^verbatim>\<open>slice(-3)\<close> then gives the
  whole list, while the position is still computed as \<^verbatim>\<open>articles.length - 2 + i\<close>. The only
  row of a list of one gets position \<open>-1\<close>, and the rows of a list of two get positions \<open>0\<close>
  and \<open>1\<close>, also in the report that \<open>buildResultObject\<close> builds. (With three rows or more
  the positions are the true ones, by \<open>sample_last3_nth\<close>.)
\<close>

theorem sample_last3_short_list_positions:
  "map position (sample_last3 [\<lparr>title = ''A'', ageText = ''1 minute ago'', ageISO = None\<rparr>]) = [- 1]
   \<and> map position (sample_last3 (take 2 articles_sorted)) = [0, 1]
   \<and> map_sum id (\<lambda>r. last3 (sampleArticles r))
        (buildResultObject host_example (take 2 articles_sorted)
           (validateArticles Date_parse_example (take 2 articles_sorted) 1736084820000)
           1736084800000 1736084820500) =
       Inr [\<lparr>position = 0, title = ''A'', age = ''1 minute ago''\<rparr>,
            \<lparr>position = 1, title = ''B'', age = ''1 minute ago''\<rparr>]"
  by code_simp

end
